theory Spec2Isabelle
  imports Complex_Main "HOL-Library.Multiset" "HOL-Library.Monad_Syntax"
begin

section \<open>Points (Point.h)\<close>

text \<open>
  \<^verbatim>\<open>Point<N>\<close> is an array of \<open>N\<close> doubles. The coordinates are idealised as reals
  (no rounding, no NaN); a point is the list of its coordinates and the dimension \<open>N\<close>
  is passed to every operation that loops over the coordinates. Point location and
  insertion are transcribed a second time over doubles that may be infinite or NaN, in
  the section on doubles, for the one property that depends on a point being equal to
  itself.
\<close>

type_synonym point = "real list"

text \<open>\<^verbatim>\<open>Distance\<close>: the loop \<^verbatim>\<open>for i in 0..N-1: result += (one[i]-two[i])*(one[i]-two[i])\<close>.\<close>

definition Distance :: "nat \<Rightarrow> point \<Rightarrow> point \<Rightarrow> real" where
  "Distance N one two =
     fold (\<lambda>i result. result + (one ! i - two ! i) * (one ! i - two ! i)) [0..<N] 0"

text \<open>\<^verbatim>\<open>operator==\<close>: \<^verbatim>\<open>std::equal\<close> over the \<open>N\<close> coordinates.\<close>

definition point_eq :: "nat \<Rightarrow> point \<Rightarrow> point \<Rightarrow> bool" where
  "point_eq N one two = list_all (\<lambda>i. one ! i = two ! i) [0..<N]"

section \<open>The bounded priority queue (BoundedPQueue.h)\<close>

text \<open>
  The queue is a \<^verbatim>\<open>std::multimap<double, T>\<close> and a maximum size. The multimap is the
  list of its (priority, value) entries in iteration order: ascending priority, entries
  of equal priority in the order they were inserted.
\<close>

record 'v BoundedPQueue =
  elems :: "(real \<times> 'v) list"
  maximumSize :: nat

text \<open>\<^verbatim>\<open>numeric_limits<double>::infinity()\<close> is a value of its own next to the reals.\<close>

datatype priority = Finite real | Infinity

fun lt_priority :: "real \<Rightarrow> priority \<Rightarrow> bool" where
  "lt_priority x (Finite w) = (x < w)"
| "lt_priority x Infinity = True"

fun le_priority :: "priority \<Rightarrow> real \<Rightarrow> bool" where
  "le_priority (Finite w) x = (w \<le> x)"
| "le_priority Infinity x = False"

definition BoundedPQueue_new :: "nat \<Rightarrow> 'v BoundedPQueue" where
  "BoundedPQueue_new maxSize = \<lparr>elems = [], maximumSize = maxSize\<rparr>"

text \<open>
  \<^verbatim>\<open>multimap::insert\<close>: the new entry goes behind every entry whose key is not greater
  (the upper bound of its key).
\<close>

fun multimap_insert :: "real \<times> 'v \<Rightarrow> (real \<times> 'v) list \<Rightarrow> (real \<times> 'v) list" where
  "multimap_insert e [] = [e]"
| "multimap_insert e (x # xs) =
     (if fst e < fst x then e # x # xs else x # multimap_insert e xs)"

definition size_q :: "'v BoundedPQueue \<Rightarrow> nat" where
  "size_q q = length (elems q)"

definition empty_q :: "'v BoundedPQueue \<Rightarrow> bool" where
  "empty_q q = (elems q = [])"

definition maxSize :: "'v BoundedPQueue \<Rightarrow> nat" where
  "maxSize q = maximumSize q"

text \<open>\<^verbatim>\<open>enqueue\<close>: insert, then erase the last entry if the size exceeds the maximum.\<close>

definition enqueue :: "'v BoundedPQueue \<Rightarrow> 'v \<Rightarrow> real \<Rightarrow> 'v BoundedPQueue" where
  "enqueue q v priority =
     (let q1 = q\<lparr>elems := multimap_insert (priority, v) (elems q)\<rparr>
      in if size_q q1 > maxSize q1 then q1\<lparr>elems := butlast (elems q1)\<rparr> else q1)"

text \<open>
  \<^verbatim>\<open>dequeueMin\<close> reads \<^verbatim>\<open>elems.begin()\<close> without a check; on an empty queue the C++
  is undefined, here it is \<open>None\<close>.
\<close>

definition dequeueMin :: "'v BoundedPQueue \<Rightarrow> ('v \<times> 'v BoundedPQueue) option" where
  "dequeueMin q =
     (case elems q of [] \<Rightarrow> None | e # es \<Rightarrow> Some (snd e, q\<lparr>elems := es\<rparr>))"

definition best :: "'v BoundedPQueue \<Rightarrow> priority" where
  "best q = (if empty_q q then Infinity else Finite (fst (hd (elems q))))"

definition worst :: "'v BoundedPQueue \<Rightarrow> priority" where
  "worst q = (if empty_q q then Infinity else Finite (fst (last (elems q))))"

text \<open>The queue states a program can reach: a new queue, then enqueues and dequeues.\<close>

inductive bpq_reachable :: "'v BoundedPQueue \<Rightarrow> bool" where
  reach_new: "bpq_reachable (BoundedPQueue_new k)"
| reach_enqueue: "bpq_reachable q \<Longrightarrow> bpq_reachable (enqueue q v p)"
| reach_dequeue: "bpq_reachable q \<Longrightarrow> dequeueMin q = Some (v, q') \<Longrightarrow> bpq_reachable q'"

definition bpq_inv :: "'v BoundedPQueue \<Rightarrow> bool" where
  "bpq_inv q = (sorted (map fst (elems q)) \<and> length (elems q) \<le> maximumSize q)"

section \<open>The k-d tree (KDTree.h)\<close>

subsection \<open>Nodes and pointers to nodes\<close>

text \<open>
  \<^verbatim>\<open>struct Node { Point<N> point; Node *left; Node *right; int level; ElemType value; }\<close>.
  Every node owns its children, so a subtree is a value; \<open>Null\<close> is the null pointer.
\<close>

datatype 'v Node = Null | Node point "'v Node" "'v Node" nat 'v

text \<open>
  A \<^verbatim>\<open>Node*\<close> into the tree of \<^verbatim>\<open>root_\<close> is the path from the root to the node.
  \<open>deref\<close> reads through such a pointer and \<open>assign\<close> writes the node it points to.
\<close>

datatype dir = L | R

type_synonym ptr = "dir list"

fun deref :: "'v Node \<Rightarrow> ptr \<Rightarrow> 'v Node" where
  "deref t [] = t"
| "deref Null (d # ds) = Null"
| "deref (Node p l r lv v) (L # ds) = deref l ds"
| "deref (Node p l r lv v) (R # ds) = deref r ds"

fun assign :: "'v Node \<Rightarrow> ptr \<Rightarrow> 'v Node \<Rightarrow> 'v Node" where
  "assign t [] n = n"
| "assign Null (d # ds) n = Null"
| "assign (Node p l r lv v) (L # ds) n = Node p (assign l ds n) r lv v"
| "assign (Node p l r lv v) (R # ds) n = Node p l (assign r ds n) lv v"

record 'v KDTree =
  kd_root :: "'v Node"
  kd_size :: nat

text \<open>The (point, value) pairs stored in a subtree, node first.\<close>

fun entries :: "'v Node \<Rightarrow> (point \<times> 'v) list" where
  "entries Null = []"
| "entries (Node p l r lv v) = (p, v) # entries l @ entries r"

definition points :: "'v Node \<Rightarrow> point list" where
  "points t = map fst (entries t)"

subsection \<open>Construction\<close>

definition KDTree_empty :: "'v KDTree" where
  "KDTree_empty = \<lparr>kd_root = Null, kd_size = 0\<rparr>"

text \<open>
  \<^verbatim>\<open>buildTree(start, end, currLevel)\<close> works on a range of the caller's vector. The
  iterators are indices into the vector, which is passed in and returned, since
  \<^verbatim>\<open>std::nth_element\<close> permutes it in place.

  \<^verbatim>\<open>std::nth_element\<close> belongs to the C++ library, not to this repository: it is the
  parameter \<open>sel\<close>, called as \<open>sel cmp v start nth end\<close>, and \<open>nth_element_ok\<close> below is
  what the C++ standard promises of it.
\<close>

type_synonym 'v vec = "(point \<times> 'v) list"

type_synonym 'v nth_element =
  "(point \<times> 'v \<Rightarrow> point \<times> 'v \<Rightarrow> bool) \<Rightarrow> 'v vec \<Rightarrow> nat \<Rightarrow> nat \<Rightarrow> nat \<Rightarrow> 'v vec"

text \<open>The lambda \<^verbatim>\<open>cmp\<close> of \<^verbatim>\<open>buildTree\<close>.\<close>

definition cmp :: "nat \<Rightarrow> point \<times> 'v \<Rightarrow> point \<times> 'v \<Rightarrow> bool" where
  "cmp axis p1 p2 = (fst p1 ! axis < fst p2 ! axis)"

text \<open>
  The loop \<^verbatim>\<open>while (mid > start && (mid - 1)->first[axis] == mid->first[axis]) --mid;\<close>
\<close>

fun walk_left :: "nat \<Rightarrow> 'v vec \<Rightarrow> nat \<Rightarrow> nat \<Rightarrow> nat" where
  "walk_left axis v start mid =
     (if mid > start \<and> fst (v ! (mid - 1)) ! axis = fst (v ! mid) ! axis
      then walk_left axis v start (mid - 1) else mid)"

declare walk_left.simps [simp del]

lemma walk_left_le: "walk_left axis v start mid \<le> mid"
  by (induction axis v start mid rule: walk_left.induct)
    (subst walk_left.simps, auto)

lemma walk_left_ge: "start \<le> mid \<Longrightarrow> start \<le> walk_left axis v start mid"
  by (induction axis v start mid rule: walk_left.induct)
    (subst walk_left.simps, auto)

function buildTree ::
  "'v nth_element \<Rightarrow> nat \<Rightarrow> 'v vec \<Rightarrow> nat \<Rightarrow> nat \<Rightarrow> nat \<Rightarrow> 'v Node \<times> 'v vec" where
  "buildTree sel N v start end' currLevel =
     (if start \<ge> end' then (Null, v)
      else
        let axis = currLevel mod N;
            len = end' - start;
            mid = start + len div 2;
            v1 = sel (cmp axis) v start mid end';
            mid = walk_left axis v1 start mid;
            (l, v2) = buildTree sel N v1 start mid (currLevel + 1);
            (r, v3) = buildTree sel N v2 (mid + 1) end' (currLevel + 1)
        in (Node (fst (v1 ! mid)) l r currLevel (snd (v1 ! mid)), v3))"
  by pat_completeness auto
termination
proof (relation "measure (\<lambda>(sel, N, v, start, end', currLevel). end' - start)")
  show "wf (measure (\<lambda>(sel, N, v, start, end', currLevel). end' - start))" by simp
next
  fix sel :: "'v nth_element" and N v start end' currLevel axis len mid v1 mid'
  assume "\<not> end' \<le> start" "len = end' - start" "mid = start + len div 2"
    "mid' = walk_left axis v1 start mid"
  moreover have "walk_left axis v1 start mid \<le> mid" by (rule walk_left_le)
  ultimately show "((sel, N, v1, start, mid', currLevel + 1), (sel, N, v, start, end', currLevel))
      \<in> measure (\<lambda>(sel, N, v, start, end', currLevel). end' - start)"
    by simp linarith
next
  fix sel :: "'v nth_element" and N v start end' currLevel axis len mid v1 mid' x l v2
  assume "\<not> end' \<le> start" "len = end' - start" "mid = start + len div 2"
    "mid' = walk_left axis v1 start mid"
  moreover have "start \<le> walk_left axis v1 start mid"
    using calculation by (intro walk_left_ge) simp
  moreover have "walk_left axis v1 start mid \<le> mid" by (rule walk_left_le)
  ultimately show "((sel, N, v2, mid' + 1, end', currLevel + 1), (sel, N, v, start, end', currLevel))
      \<in> measure (\<lambda>(sel, N, v, start, end', currLevel). end' - start)"
    by simp linarith
qed

declare buildTree.simps [simp del]

text \<open>The bulk constructor \<^verbatim>\<open>KDTree(std::vector<std::pair<Point<N>, ElemType>>& points)\<close>.\<close>

definition KDTree_bulk :: "'v nth_element \<Rightarrow> nat \<Rightarrow> 'v vec \<Rightarrow> 'v KDTree" where
  "KDTree_bulk sel N pts =
     \<lparr>kd_root = fst (buildTree sel N pts 0 (length pts) 0), kd_size = length pts\<rparr>"

definition dimension :: "nat \<Rightarrow> 'v KDTree \<Rightarrow> nat" where
  "dimension N T = N"

definition size_kd :: "'v KDTree \<Rightarrow> nat" where
  "size_kd T = kd_size T"

definition empty_kd :: "'v KDTree \<Rightarrow> bool" where
  "empty_kd T = (kd_size T = 0)"

subsection \<open>Point location, membership, insertion, access\<close>

text \<open>\<^verbatim>\<open>findNode\<close>; \<open>None\<close> is the null pointer it returns for an empty subtree.\<close>

fun findNode :: "nat \<Rightarrow> 'v Node \<Rightarrow> point \<Rightarrow> ptr option" where
  "findNode N Null pt = None"
| "findNode N (Node currPoint l r currLevel v) pt =
     (if point_eq N currPoint pt then Some []
      else if pt ! (currLevel mod N) < currPoint ! (currLevel mod N)
      then (if l = Null then Some [] else map_option (Cons L) (findNode N l pt))
      else (if r = Null then Some [] else map_option (Cons R) (findNode N r pt)))"

definition contains :: "nat \<Rightarrow> 'v KDTree \<Rightarrow> point \<Rightarrow> bool" where
  "contains N T pt =
     (case findNode N (kd_root T) pt of
        None \<Rightarrow> False
      | Some node \<Rightarrow>
          (case deref (kd_root T) node of
             Null \<Rightarrow> False
           | Node p l r lv v \<Rightarrow> point_eq N p pt))"

definition insert_kd :: "nat \<Rightarrow> 'v KDTree \<Rightarrow> point \<Rightarrow> 'v \<Rightarrow> 'v KDTree" where
  "insert_kd N T pt val =
     (case findNode N (kd_root T) pt of
        None \<Rightarrow> T\<lparr>kd_root := Node pt Null Null 0 val, kd_size := 1\<rparr>
      | Some targetNode \<Rightarrow>
          (case deref (kd_root T) targetNode of
             Null \<Rightarrow> T
           | Node p l r currLevel v \<Rightarrow>
               if point_eq N p pt
               then T\<lparr>kd_root := assign (kd_root T) targetNode (Node p l r currLevel val)\<rparr>
               else
                 let newNode = Node pt Null Null (currLevel + 1) val
                 in if pt ! (currLevel mod N) < p ! (currLevel mod N)
                    then T\<lparr>kd_root := assign (kd_root T) targetNode (Node p newNode r currLevel v),
                           kd_size := kd_size T + 1\<rparr>
                    else T\<lparr>kd_root := assign (kd_root T) targetNode (Node p l newNode currLevel v),
                           kd_size := kd_size T + 1\<rparr>))"

text \<open>\<^verbatim>\<open>at\<close> throws \<^verbatim>\<open>std::out_of_range\<close>; the tree is \<^verbatim>\<open>const\<close> in it.\<close>

datatype error = out_of_range

definition at_kd :: "nat \<Rightarrow> 'v KDTree \<Rightarrow> point \<Rightarrow> error + 'v" where
  "at_kd N T pt =
     (case findNode N (kd_root T) pt of
        None \<Rightarrow> Inl out_of_range
      | Some node \<Rightarrow>
          (case deref (kd_root T) node of
             Null \<Rightarrow> Inl out_of_range
           | Node p l r lv v \<Rightarrow> if \<not> point_eq N p pt then Inl out_of_range else Inr v))"

subsection \<open>k nearest neighbours\<close>

text \<open>
  The state of a search is the bounded queue that \<^verbatim>\<open>nearestNeighborRecurse\<close> updates
  through its reference parameter. \<open>visited\<close> is a ghost field: the points of the nodes
  the recursion was called on, in the order of the calls. Nothing reads it.
\<close>

record 'v search =
  pQueue :: "'v BoundedPQueue"
  visited :: "point list"

fun nearestNeighborRecurse :: "nat \<Rightarrow> 'v Node \<Rightarrow> point \<Rightarrow> 'v search \<Rightarrow> 'v search" where
  "nearestNeighborRecurse N Null key s = s"
| "nearestNeighborRecurse N (Node currPoint l r currLevel v) key s =
     (let s1 = s\<lparr>pQueue := enqueue (pQueue s) v (Distance N currPoint key),
                 visited := visited s @ [currPoint]\<rparr>;
          isLeftTree = key ! (currLevel mod N) < currPoint ! (currLevel mod N);
          s2 = (if isLeftTree then nearestNeighborRecurse N l key s1
                else nearestNeighborRecurse N r key s1)
      in if size_q (pQueue s2) < maxSize (pQueue s2) \<or>
            lt_priority \<bar>key ! (currLevel mod N) - currPoint ! (currLevel mod N)\<bar>
              (worst (pQueue s2))
         then (if isLeftTree then nearestNeighborRecurse N r key s2
               else nearestNeighborRecurse N l key s2)
         else s2)"

text \<open>
  \<^verbatim>\<open>std::unordered_map<ElemType, int> counter\<close> is the list of its (key, count) pairs in
  the order the keys were first inserted; \<open>increment\<close> is \<^verbatim>\<open>++counter[key]\<close>.
\<close>

fun increment :: "('v \<times> int) list \<Rightarrow> 'v \<Rightarrow> ('v \<times> int) list" where
  "increment [] key = [(key, 1)]"
| "increment (kc # kcs) key =
     (if fst kc = key then (fst kc, snd kc + 1) # kcs else kc # increment kcs key)"

text \<open>The loop \<^verbatim>\<open>while (!pQueue.empty()) ++counter[pQueue.dequeueMin()];\<close>\<close>

function count_all :: "'v BoundedPQueue \<Rightarrow> ('v \<times> int) list \<Rightarrow> ('v \<times> int) list" where
  "count_all q counter =
     (if empty_q q then counter
      else (case dequeueMin q of
              None \<Rightarrow> counter
            | Some (v, q') \<Rightarrow> count_all q' (increment counter v)))"
  by pat_completeness auto
termination
  by (relation "measure (\<lambda>(q, counter). size_q q)")
    (auto simp: dequeueMin_def size_q_def split: list.splits)

declare count_all.simps [simp del]

text \<open>
  The loop \<^verbatim>\<open>for (const auto &p : counter) if (p.second > cnt) { result = p.first; cnt = p.second; }\<close>
  over the pairs in the order the map enumerates them.
\<close>

fun most_frequent :: "('v \<times> int) list \<Rightarrow> 'v \<Rightarrow> int \<Rightarrow> 'v" where
  "most_frequent [] result cnt = result"
| "most_frequent (p # ps) result cnt =
     (if snd p > cnt then most_frequent ps (fst p) (snd p) else most_frequent ps result cnt)"

text \<open>
  \<^verbatim>\<open>kNNValue\<close>. The order in which an unordered map enumerates its pairs is not fixed by
  the language: \<open>iter\<close> turns the pairs in insertion order into the enumeration.
  \<open>dflt\<close> is \<^verbatim>\<open>ElemType()\<close>, which is also what \<^verbatim>\<open>ElemType result;\<close> holds for a class
  type before the loop assigns it.
\<close>

definition kNNValue ::
  "(('v \<times> int) list \<Rightarrow> ('v \<times> int) list) \<Rightarrow> 'v \<Rightarrow> nat \<Rightarrow> 'v KDTree \<Rightarrow> point \<Rightarrow> nat \<Rightarrow> 'v" where
  "kNNValue iter dflt N T key k =
     (let q0 = BoundedPQueue_new k
      in if empty_kd T then dflt
         else
           let s = nearestNeighborRecurse N (kd_root T) key \<lparr>pQueue = q0, visited = []\<rparr>;
               counter = count_all (pQueue s) []
           in most_frequent (iter counter) dflt (- 1))"

subsection \<open>What the C++ library promises of \<^verbatim>\<open>std::nth_element\<close>\<close>

definition slice :: "'a list \<Rightarrow> nat \<Rightarrow> nat \<Rightarrow> 'a list" where
  "slice v start end' = take (end' - start) (drop start v)"

text \<open>
  After \<^verbatim>\<open>nth_element(start, nth, end, c)\<close> the vector \<open>v\<close> has become \<open>v'\<close>: the range
  is a permutation of what it was, nothing outside it has changed, and no element from
  \<open>nth\<close> on is less than an element before \<open>nth\<close>.
\<close>

definition nth_element_post ::
  "('a \<Rightarrow> 'a \<Rightarrow> bool) \<Rightarrow> 'a list \<Rightarrow> nat \<Rightarrow> nat \<Rightarrow> nat \<Rightarrow> 'a list \<Rightarrow> bool" where
  "nth_element_post c v start nth' end' v' =
     (length v' = length v \<and> take start v' = take start v \<and> drop end' v' = drop end' v \<and>
      mset (slice v' start end') = mset (slice v start end') \<and>
      (\<forall>i j. start \<le> i \<and> i < nth' \<and> nth' \<le> j \<and> j < end' \<longrightarrow> \<not> c (v' ! j) (v' ! i)))"

definition nth_element_ok :: "'v nth_element \<Rightarrow> bool" where
  "nth_element_ok sel =
     (\<forall>axis v start nth' end'. start \<le> nth' \<and> nth' < end' \<and> end' \<le> length v \<longrightarrow>
        nth_element_post (cmp axis) v start nth' end' (sel (cmp axis) v start nth' end'))"

text \<open>
  The C++ standard promises more: the element at \<open>nth\<close> is the one that would be there
  if the whole range were sorted. Next to \<open>nth_element_post\<close>, which already has that
  no element before \<open>nth\<close> is greater than the one at \<open>nth\<close>, this adds that no element
  after \<open>nth\<close> is less than the one at \<open>nth\<close> (lemma \<open>nth_element_std_sorted_position\<close>
  derives the standard's sentence from the two). \<open>nth_element_ok\<close> is the weaker promise,
  so what is proved of every selection with \<open>nth_element_ok\<close> holds of every selection
  the standard allows.
\<close>

definition nth_element_std_post ::
  "('a \<Rightarrow> 'a \<Rightarrow> bool) \<Rightarrow> 'a list \<Rightarrow> nat \<Rightarrow> nat \<Rightarrow> nat \<Rightarrow> 'a list \<Rightarrow> bool" where
  "nth_element_std_post c v start nth' end' v' =
     (nth_element_post c v start nth' end' v' \<and>
      (\<forall>j. nth' < j \<and> j < end' \<longrightarrow> \<not> c (v' ! j) (v' ! nth')))"

definition nth_element_std :: "'v nth_element \<Rightarrow> bool" where
  "nth_element_std sel =
     (\<forall>axis v start nth' end'. start \<le> nth' \<and> nth' < end' \<and> end' \<le> length v \<longrightarrow>
        nth_element_std_post (cmp axis) v start nth' end' (sel (cmp axis) v start nth' end'))"

text \<open>
  Two selections that keep the full promise (lemmas \<open>sel_sort_std\<close>, \<open>sel_keep_std\<close>).
  \<open>sel_sort\<close> sorts the range (insertion sort). \<open>sel_keep\<close> leaves the range as it is
  when it already is as \<^verbatim>\<open>std::nth_element\<close> may leave it: no element from \<open>nth\<close> on is less
  than an element before \<open>nth\<close>, and no element after \<open>nth\<close> is less than the one at
  \<open>nth\<close>. It sorts the range otherwise.
\<close>

fun insort_by :: "('a \<Rightarrow> 'a \<Rightarrow> bool) \<Rightarrow> 'a \<Rightarrow> 'a list \<Rightarrow> 'a list" where
  "insort_by c x [] = [x]"
| "insort_by c x (y # ys) = (if c y x then y # insort_by c x ys else x # y # ys)"

definition isort_by :: "('a \<Rightarrow> 'a \<Rightarrow> bool) \<Rightarrow> 'a list \<Rightarrow> 'a list" where
  "isort_by c xs = foldr (insort_by c) xs []"

definition sel_sort :: "('a \<Rightarrow> 'a \<Rightarrow> bool) \<Rightarrow> 'a list \<Rightarrow> nat \<Rightarrow> nat \<Rightarrow> nat \<Rightarrow> 'a list" where
  "sel_sort c v start nth' end' = take start v @ isort_by c (slice v start end') @ drop end' v"

definition partitioned :: "('a \<Rightarrow> 'a \<Rightarrow> bool) \<Rightarrow> 'a list \<Rightarrow> nat \<Rightarrow> nat \<Rightarrow> nat \<Rightarrow> bool" where
  "partitioned c v start nth' end' =
     (list_all (\<lambda>i. list_all (\<lambda>j. \<not> c (v ! j) (v ! i)) [nth'..<end']) [start..<nth'] \<and>
      list_all (\<lambda>j. \<not> c (v ! j) (v ! nth')) [nth' + 1..<end'])"

definition sel_keep :: "('a \<Rightarrow> 'a \<Rightarrow> bool) \<Rightarrow> 'a list \<Rightarrow> nat \<Rightarrow> nat \<Rightarrow> nat \<Rightarrow> 'a list" where
  "sel_keep c v start nth' end' =
     (if partitioned c v start nth' end' then v else sel_sort c v start nth' end')"

subsection \<open>The invariants of the specification\<close>

text \<open>
  The axis invariant: at a node of level \<open>lv\<close>, the points of the left subtree are
  strictly less on axis \<open>lv mod N\<close>, those of the right subtree greater or equal.
\<close>

fun kd_invariant :: "nat \<Rightarrow> 'v Node \<Rightarrow> bool" where
  "kd_invariant N Null = True"
| "kd_invariant N (Node p l r lv v) =
     (list_all (\<lambda>q. q ! (lv mod N) < p ! (lv mod N)) (points l) \<and>
      list_all (\<lambda>q. p ! (lv mod N) \<le> q ! (lv mod N)) (points r) \<and>
      kd_invariant N l \<and> kd_invariant N r)"

text \<open>No two nodes hold equal points.\<close>

fun pairwise_distinct :: "nat \<Rightarrow> point list \<Rightarrow> bool" where
  "pairwise_distinct N [] = True"
| "pairwise_distinct N (p # ps) =
     (list_all (\<lambda>q. \<not> point_eq N p q) ps \<and> pairwise_distinct N ps)"

definition distinct_points :: "nat \<Rightarrow> 'v Node \<Rightarrow> bool" where
  "distinct_points N t = pairwise_distinct N (points t)"

text \<open>A point is stored when some node holds a point equal to it.\<close>

definition stored :: "nat \<Rightarrow> 'v Node \<Rightarrow> point \<Rightarrow> bool" where
  "stored N t pt = list_ex (\<lambda>q. point_eq N q pt) (points t)"

text \<open>The trees that a sequence of inserts makes of the empty tree.\<close>

inductive built_by_inserts :: "nat \<Rightarrow> 'v KDTree \<Rightarrow> bool" for N where
  built_empty: "built_by_inserts N KDTree_empty"
| built_insert: "built_by_inserts N T \<Longrightarrow> built_by_inserts N (insert_kd N T pt val)"

subsection \<open>The linear scan of the specification\<close>

text \<open>
  The reference the specification compares \<^verbatim>\<open>kNNValue\<close> with: sort all stored pairs by
  their squared distance to the key, keep the first \<open>k\<close>, tally their labels and take
  the majority as \<^verbatim>\<open>kNNValue\<close> does.
\<close>

definition naive_kNNValue ::
  "(('v \<times> int) list \<Rightarrow> ('v \<times> int) list) \<Rightarrow> 'v \<Rightarrow> nat \<Rightarrow> 'v KDTree \<Rightarrow> point \<Rightarrow> nat \<Rightarrow> 'v" where
  "naive_kNNValue iter dflt N T key k =
     (let nearest = take k (sort_key (\<lambda>e. Distance N (fst e) key) (entries (kd_root T)));
          counter = foldl increment [] (map snd nearest)
      in most_frequent (iter counter) dflt (- 1))"

subsection \<open>The store: nodes and trees as objects\<close>

text \<open>
  For the copy operations the nodes are objects in a store, addressed by \<^verbatim>\<open>Node*\<close>, and
  the trees are objects too (\<^verbatim>\<open>this\<close> and \<^verbatim>\<open>&rhs\<close> are compared). \<^verbatim>\<open>new\<close> takes the next
  address that was never used. An operation that reads through a dangling or null
  pointer, frees twice or does not return is \<open>None\<close>.
\<close>

type_synonym addr = nat

record 'v node_obj =
  point_f :: point
  left_f :: "addr option"
  right_f :: "addr option"
  level_f :: nat
  value_f :: 'v

record tree_obj =
  root_f :: "addr option"
  size_f :: nat

record 'v mem =
  nodes :: "addr \<Rightarrow> 'v node_obj option"
  next_addr :: addr
  trees :: "nat \<Rightarrow> tree_obj option"

text \<open>\<^verbatim>\<open>new Node(...)\<close>, and the writes \<^verbatim>\<open>x->left = l\<close>, \<^verbatim>\<open>x->right = r\<close>, \<^verbatim>\<open>x->value = v\<close>.\<close>

definition new_node :: "'v mem \<Rightarrow> 'v node_obj \<Rightarrow> addr \<times> 'v mem" where
  "new_node m nd =
     (next_addr m, m\<lparr>nodes := (nodes m)(next_addr m \<mapsto> nd), next_addr := next_addr m + 1\<rparr>)"

definition set_left :: "'v mem \<Rightarrow> addr \<Rightarrow> addr option \<Rightarrow> 'v mem option" where
  "set_left m x l =
     (case nodes m x of None \<Rightarrow> None
      | Some nd \<Rightarrow> Some (m\<lparr>nodes := (nodes m)(x \<mapsto> nd\<lparr>left_f := l\<rparr>)\<rparr>))"

definition set_right :: "'v mem \<Rightarrow> addr \<Rightarrow> addr option \<Rightarrow> 'v mem option" where
  "set_right m x r =
     (case nodes m x of None \<Rightarrow> None
      | Some nd \<Rightarrow> Some (m\<lparr>nodes := (nodes m)(x \<mapsto> nd\<lparr>right_f := r\<rparr>)\<rparr>))"

definition set_value :: "'v mem \<Rightarrow> addr \<Rightarrow> 'v \<Rightarrow> 'v mem option" where
  "set_value m x v =
     (case nodes m x of None \<Rightarrow> None
      | Some nd \<Rightarrow> Some (m\<lparr>nodes := (nodes m)(x \<mapsto> nd\<lparr>value_f := v\<rparr>)\<rparr>))"

partial_function (option) deepcopyTree :: "'v mem \<Rightarrow> addr option \<Rightarrow> (addr option \<times> 'v mem) option" where
  "deepcopyTree m root' =
     (case root' of
        None \<Rightarrow> Some (None, m)
      | Some a \<Rightarrow> do {
          nd \<leftarrow> nodes m a;
          (newRoot, m1) \<leftarrow> Some (new_node m nd);
          nd1 \<leftarrow> nodes m1 a;
          (l, m2) \<leftarrow> deepcopyTree m1 (left_f nd1);
          m3 \<leftarrow> set_left m2 newRoot l;
          nd3 \<leftarrow> nodes m3 a;
          (r, m4) \<leftarrow> deepcopyTree m3 (right_f nd3);
          m5 \<leftarrow> set_right m4 newRoot r;
          Some (Some newRoot, m5)
        })"

partial_function (option) freeResource :: "'v mem \<Rightarrow> addr option \<Rightarrow> 'v mem option" where
  "freeResource m currNode =
     (case currNode of
        None \<Rightarrow> Some m
      | Some a \<Rightarrow> do {
          nd \<leftarrow> nodes m a;
          m1 \<leftarrow> freeResource m (left_f nd);
          nd1 \<leftarrow> nodes m1 a;
          m2 \<leftarrow> freeResource m1 (right_f nd1);
          _ \<leftarrow> nodes m2 a;
          Some (m2\<lparr>nodes := (nodes m2)(a := None)\<rparr>)
        })"

text \<open>\<^verbatim>\<open>findNode\<close> on the store; the inner \<open>None\<close> is the null pointer.\<close>

partial_function (option) findNode_h ::
  "nat \<Rightarrow> 'v mem \<Rightarrow> addr option \<Rightarrow> point \<Rightarrow> addr option option" where
  "findNode_h N m currNode pt =
     (case currNode of
        None \<Rightarrow> Some None
      | Some a \<Rightarrow> do {
          nd \<leftarrow> nodes m a;
          if point_eq N (point_f nd) pt then Some currNode
          else if pt ! (level_f nd mod N) < point_f nd ! (level_f nd mod N)
          then (if left_f nd = None then Some currNode else findNode_h N m (left_f nd) pt)
          else (if right_f nd = None then Some currNode else findNode_h N m (right_f nd) pt)
        })"

text \<open>The copy constructor and \<^verbatim>\<open>operator=\<close>; \<open>this\<close> and \<open>rhs\<close> name the tree objects.\<close>

definition KDTree_copy :: "'v mem \<Rightarrow> nat \<Rightarrow> nat \<Rightarrow> 'v mem option" where
  "KDTree_copy m this rhs = do {
     r \<leftarrow> trees m rhs;
     (newRoot, m1) \<leftarrow> deepcopyTree m (root_f r);
     r1 \<leftarrow> trees m1 rhs;
     Some (m1\<lparr>trees := (trees m1)(this \<mapsto> \<lparr>root_f = newRoot, size_f = size_f r1\<rparr>)\<rparr>)
   }"

definition KDTree_assign :: "'v mem \<Rightarrow> nat \<Rightarrow> nat \<Rightarrow> 'v mem option" where
  "KDTree_assign m this rhs =
     (if this \<noteq> rhs then do {
        t \<leftarrow> trees m this;
        m1 \<leftarrow> freeResource m (root_f t);
        r \<leftarrow> trees m1 rhs;
        (newRoot, m2) \<leftarrow> deepcopyTree m1 (root_f r);
        r2 \<leftarrow> trees m2 rhs;
        Some (m2\<lparr>trees := (trees m2)(this \<mapsto> \<lparr>root_f = newRoot, size_f = size_f r2\<rparr>)\<rparr>)
      } else Some m)"

text \<open>\<^verbatim>\<open>size\<close>, \<^verbatim>\<open>insert\<close> and \<^verbatim>\<open>at\<close> on the store.\<close>

definition size_h :: "'v mem \<Rightarrow> nat \<Rightarrow> nat option" where
  "size_h m this = map_option size_f (trees m this)"

definition insert_h :: "nat \<Rightarrow> 'v mem \<Rightarrow> nat \<Rightarrow> point \<Rightarrow> 'v \<Rightarrow> 'v mem option" where
  "insert_h N m this pt val = do {
     t \<leftarrow> trees m this;
     targetNode \<leftarrow> findNode_h N m (root_f t) pt;
     (case targetNode of
        None \<Rightarrow> do {
          (newNode, m1) \<leftarrow> Some (new_node m
             \<lparr>point_f = pt, left_f = None, right_f = None, level_f = 0, value_f = val\<rparr>);
          Some (m1\<lparr>trees := (trees m1)(this \<mapsto> \<lparr>root_f = Some newNode, size_f = 1\<rparr>)\<rparr>)
        }
      | Some x \<Rightarrow> do {
          nd \<leftarrow> nodes m x;
          if point_eq N (point_f nd) pt then set_value m x val
          else do {
            (newNode, m1) \<leftarrow> Some (new_node m
               \<lparr>point_f = pt, left_f = None, right_f = None, level_f = level_f nd + 1,
                value_f = val\<rparr>);
            m2 \<leftarrow> (if pt ! (level_f nd mod N) < point_f nd ! (level_f nd mod N)
                   then set_left m1 x (Some newNode) else set_right m1 x (Some newNode));
            t2 \<leftarrow> trees m2 this;
            Some (m2\<lparr>trees := (trees m2)(this \<mapsto> t2\<lparr>size_f := size_f t2 + 1\<rparr>)\<rparr>)
          }
        })
   }"

definition at_h :: "nat \<Rightarrow> 'v mem \<Rightarrow> nat \<Rightarrow> point \<Rightarrow> (error + 'v) option" where
  "at_h N m this pt = do {
     t \<leftarrow> trees m this;
     node \<leftarrow> findNode_h N m (root_f t) pt;
     (case node of
        None \<Rightarrow> Some (Inl out_of_range)
      | Some x \<Rightarrow> do {
          nd \<leftarrow> nodes m x;
          if \<not> point_eq N (point_f nd) pt then Some (Inl out_of_range)
          else Some (Inr (value_f nd))
        })
   }"

text \<open>
  \<open>rep h a t\<close>: in the store \<open>h\<close> the pointer \<open>a\<close> is the root of nodes that form the tree
  \<open>t\<close>, each node owned once; \<open>addrs h a t\<close> are the addresses of these nodes.
\<close>

fun addrs :: "(addr \<Rightarrow> 'v node_obj option) \<Rightarrow> addr option \<Rightarrow> 'v Node \<Rightarrow> addr set" where
  "addrs h a Null = {}"
| "addrs h a (Node p l r lv v) =
     (case a of None \<Rightarrow> {}
      | Some x \<Rightarrow>
          (case h x of None \<Rightarrow> {x}
           | Some nd \<Rightarrow> insert x (addrs h (left_f nd) l \<union> addrs h (right_f nd) r)))"

fun rep :: "(addr \<Rightarrow> 'v node_obj option) \<Rightarrow> addr option \<Rightarrow> 'v Node \<Rightarrow> bool" where
  "rep h a Null = (a = None)"
| "rep h a (Node p l r lv v) =
     (case a of None \<Rightarrow> False
      | Some x \<Rightarrow>
          (case h x of None \<Rightarrow> False
           | Some nd \<Rightarrow>
               point_f nd = p \<and> level_f nd = lv \<and> value_f nd = v \<and>
               rep h (left_f nd) l \<and> rep h (right_f nd) r \<and>
               x \<notin> addrs h (left_f nd) l \<and> x \<notin> addrs h (right_f nd) r \<and>
               addrs h (left_f nd) l \<inter> addrs h (right_f nd) r = {}))"

text \<open>No address from \<open>next_addr\<close> on is in use.\<close>

definition heap_ok :: "'v mem \<Rightarrow> bool" where
  "heap_ok m = (\<forall>a. next_addr m \<le> a \<longrightarrow> nodes m a = None)"

text \<open>
  The tree object \<open>T\<close> of the store is the tree \<open>K\<close>: its nodes form \<open>kd_root K\<close>, its
  \<^verbatim>\<open>size_\<close> is \<open>kd_size K\<close>; \<open>footprint\<close> are the addresses of its nodes.
\<close>

definition holds :: "'v mem \<Rightarrow> nat \<Rightarrow> 'v KDTree \<Rightarrow> bool" where
  "holds m T K =
     (case trees m T of None \<Rightarrow> False
      | Some obj \<Rightarrow> rep (nodes m) (root_f obj) (kd_root K) \<and> size_f obj = kd_size K)"

definition footprint :: "'v mem \<Rightarrow> nat \<Rightarrow> 'v KDTree \<Rightarrow> addr set" where
  "footprint m T K =
     (case trees m T of None \<Rightarrow> {}
      | Some obj \<Rightarrow> addrs (nodes m) (root_f obj) (kd_root K))"

declare deepcopyTree.simps [code] freeResource.simps [code] findNode_h.simps [code]

subsection \<open>Recursive descriptions used in the proofs\<close>

text \<open>
  \<open>ins\<close> is the root after \<^verbatim>\<open>insert\<close> and \<open>loc\<close> the value of the node that \<^verbatim>\<open>findNode\<close>
  returns when that node holds the point, both by recursion along the path \<^verbatim>\<open>findNode\<close>
  walks. Lemmas \<open>kd_root_insert_kd\<close>, \<open>contains_loc\<close> and \<open>at_kd_loc\<close> prove that they
  describe \<open>insert_kd\<close>, \<open>contains\<close> and \<open>at_kd\<close>.
\<close>

fun ins :: "nat \<Rightarrow> 'v Node \<Rightarrow> point \<Rightarrow> 'v \<Rightarrow> 'v Node" where
  "ins N Null pt val = Node pt Null Null 0 val"
| "ins N (Node p l r lv v) pt val =
     (if point_eq N p pt then Node p l r lv val
      else if pt ! (lv mod N) < p ! (lv mod N)
      then (if l = Null then Node p (Node pt Null Null (lv + 1) val) r lv v
            else Node p (ins N l pt val) r lv v)
      else (if r = Null then Node p l (Node pt Null Null (lv + 1) val) lv v
            else Node p l (ins N r pt val) lv v))"

fun loc :: "nat \<Rightarrow> 'v Node \<Rightarrow> point \<Rightarrow> 'v option" where
  "loc N Null pt = None"
| "loc N (Node p l r lv v) pt =
     (if point_eq N p pt then Some v
      else if pt ! (lv mod N) < p ! (lv mod N) then loc N l pt else loc N r pt)"

text \<open>
  What \<^verbatim>\<open>buildTree\<close> has done to the vector and what the subtree holds, for the range
  from \<open>start\<close> to \<open>end'\<close> of the vector \<open>v\<close> it was called on.
\<close>

definition build_post :: "'v vec \<Rightarrow> nat \<Rightarrow> nat \<Rightarrow> 'v Node \<times> 'v vec \<Rightarrow> bool" where
  "build_post v start end' res =
     (length (snd res) = length v \<and> take start (snd res) = take start v \<and>
      drop end' (snd res) = drop end' v \<and>
      mset (entries (fst res)) = mset (slice v start end'))"

text \<open>
  \<open>separate\<close>: two tree objects of one store hold their trees and share no node.
  \<open>inserts_h\<close> and \<open>inserts_kd\<close>: a sequence of \<^verbatim>\<open>insert\<close> calls on one tree object of the
  store, and on a tree.
\<close>

definition separate :: "'v mem \<Rightarrow> nat \<Rightarrow> 'v KDTree \<Rightarrow> nat \<Rightarrow> 'v KDTree \<Rightarrow> bool" where
  "separate m A KA B KB =
     (heap_ok m \<and> A \<noteq> B \<and> holds m A KA \<and> holds m B KB \<and>
      footprint m A KA \<inter> footprint m B KB = {})"

fun inserts_h :: "nat \<Rightarrow> 'v mem \<Rightarrow> nat \<Rightarrow> (point \<times> 'v) list \<Rightarrow> 'v mem option" where
  "inserts_h N m T [] = Some m"
| "inserts_h N m T (e # es) =
     (case insert_h N m T (fst e) (snd e) of None \<Rightarrow> None | Some m' \<Rightarrow> inserts_h N m' T es)"

fun inserts_kd :: "nat \<Rightarrow> 'v KDTree \<Rightarrow> (point \<times> 'v) list \<Rightarrow> 'v KDTree" where
  "inserts_kd N K [] = K"
| "inserts_kd N K (e # es) = inserts_kd N (insert_kd N K (fst e) (snd e)) es"

text \<open>
  For the store: the object of a new leaf, the node \<open>nd\<close> with the new leaf \<open>y\<close> attached
  on the side of \<open>pt\<close>, and what the proofs need of the node that \<open>findNode_h\<close> returns
  (\<open>found_ok\<close>: writing its value, or attaching a new leaf to it, turns a store that
  holds the tree \<open>t\<close> into one that holds \<open>ins N t pt val\<close>).
\<close>

definition leaf_obj :: "point \<Rightarrow> nat \<Rightarrow> 'v \<Rightarrow> 'v node_obj" where
  "leaf_obj pt lv val =
     \<lparr>point_f = pt, left_f = None, right_f = None, level_f = lv, value_f = val\<rparr>"

definition attach :: "nat \<Rightarrow> 'v node_obj \<Rightarrow> point \<Rightarrow> addr \<Rightarrow> 'v node_obj" where
  "attach N nd pt y =
     (if pt ! (level_f nd mod N) < point_f nd ! (level_f nd mod N)
      then nd\<lparr>left_f := Some y\<rparr> else nd\<lparr>right_f := Some y\<rparr>)"

definition found_ok ::
  "nat \<Rightarrow> (addr \<Rightarrow> 'v node_obj option) \<Rightarrow> addr option \<Rightarrow> 'v Node \<Rightarrow> point \<Rightarrow> addr \<Rightarrow> 'v node_obj \<Rightarrow> bool" where
  "found_ok N h a t pt x nd =
     (h x = Some nd \<and> x \<in> addrs h a t \<and>
      (if point_eq N (point_f nd) pt
       then loc N t pt = Some (value_f nd) \<and>
            (\<forall>val. rep (h(x \<mapsto> nd\<lparr>value_f := val\<rparr>)) a (ins N t pt val) \<and>
               addrs (h(x \<mapsto> nd\<lparr>value_f := val\<rparr>)) a (ins N t pt val) = addrs h a t)
       else loc N t pt = None \<and>
            (\<forall>y val. y \<notin> addrs h a t \<longrightarrow>
               rep (h(y \<mapsto> leaf_obj pt (level_f nd + 1) val, x \<mapsto> attach N nd pt y)) a
                 (ins N t pt val) \<and>
               addrs (h(y \<mapsto> leaf_obj pt (level_f nd + 1) val, x \<mapsto> attach N nd pt y)) a
                 (ins N t pt val) = insert y (addrs h a t))))"

section \<open>Point location and insertion over doubles\<close>

text \<open>
  \<^verbatim>\<open>findNode\<close>, \<^verbatim>\<open>insert\<close> and \<^verbatim>\<open>at\<close> apply only \<^verbatim>\<open>==\<close> and \<^verbatim>\<open><\<close> to coordinates, so for them a
  double is its value: a finite number, one of the two infinities, or NaN. Both comparisons
  are false as soon as one side is NaN; in particular \<^verbatim>\<open>NaN == NaN\<close> is false. This section
  transcribes the three functions again with such coordinates.
\<close>

datatype coord = Num real | PInf | MInf | NaN

text \<open>\<^verbatim>\<open>a < b\<close> on doubles.\<close>

fun lt_coord :: "coord \<Rightarrow> coord \<Rightarrow> bool" where
  "lt_coord (Num a) (Num b) = (a < b)"
| "lt_coord (Num a) PInf = True"
| "lt_coord MInf (Num b) = True"
| "lt_coord MInf PInf = True"
| "lt_coord a b = False"

text \<open>\<^verbatim>\<open>a == b\<close> on doubles.\<close>

fun eq_coord :: "coord \<Rightarrow> coord \<Rightarrow> bool" where
  "eq_coord (Num a) (Num b) = (a = b)"
| "eq_coord PInf PInf = True"
| "eq_coord MInf MInf = True"
| "eq_coord a b = False"

type_synonym dpoint = "coord list"

text \<open>\<^verbatim>\<open>operator==\<close>: \<^verbatim>\<open>std::equal\<close> over the \<open>N\<close> coordinates, each pair compared by \<^verbatim>\<open>==\<close>.\<close>

definition dpoint_eq :: "nat \<Rightarrow> dpoint \<Rightarrow> dpoint \<Rightarrow> bool" where
  "dpoint_eq N one two = list_all (\<lambda>i. eq_coord (one ! i) (two ! i)) [0..<N]"

text \<open>None of the \<open>N\<close> coordinates of the point is NaN.\<close>

definition no_nan :: "nat \<Rightarrow> dpoint \<Rightarrow> bool" where
  "no_nan N p = list_all (\<lambda>i. p ! i \<noteq> NaN) [0..<N]"

text \<open>\<^verbatim>\<open>struct Node\<close>, and the node a pointer leads to, as before.\<close>

datatype 'v DNode = DNull | DNode dpoint "'v DNode" "'v DNode" nat 'v

fun deref_d :: "'v DNode \<Rightarrow> ptr \<Rightarrow> 'v DNode" where
  "deref_d t [] = t"
| "deref_d DNull (d # ds) = DNull"
| "deref_d (DNode p l r lv v) (L # ds) = deref_d l ds"
| "deref_d (DNode p l r lv v) (R # ds) = deref_d r ds"

fun assign_d :: "'v DNode \<Rightarrow> ptr \<Rightarrow> 'v DNode \<Rightarrow> 'v DNode" where
  "assign_d t [] n = n"
| "assign_d DNull (d # ds) n = DNull"
| "assign_d (DNode p l r lv v) (L # ds) n = DNode p (assign_d l ds n) r lv v"
| "assign_d (DNode p l r lv v) (R # ds) n = DNode p l (assign_d r ds n) lv v"

text \<open>The members \<^verbatim>\<open>root_\<close> and \<^verbatim>\<open>size_\<close>, the default constructor and \<^verbatim>\<open>size()\<close>.\<close>

record 'v DKDTree =
  d_root :: "'v DNode"
  d_size :: nat

definition DKDTree_empty :: "'v DKDTree" where
  "DKDTree_empty = \<lparr>d_root = DNull, d_size = 0\<rparr>"

definition size_d :: "'v DKDTree \<Rightarrow> nat" where
  "size_d T = d_size T"

text \<open>\<^verbatim>\<open>findNode\<close>.\<close>

fun findNode_d :: "nat \<Rightarrow> 'v DNode \<Rightarrow> dpoint \<Rightarrow> ptr option" where
  "findNode_d N DNull pt = None"
| "findNode_d N (DNode currPoint l r currLevel v) pt =
     (if dpoint_eq N currPoint pt then Some []
      else if lt_coord (pt ! (currLevel mod N)) (currPoint ! (currLevel mod N))
      then (if l = DNull then Some [] else map_option (Cons L) (findNode_d N l pt))
      else (if r = DNull then Some [] else map_option (Cons R) (findNode_d N r pt)))"

text \<open>\<^verbatim>\<open>insert\<close>.\<close>

definition insert_d :: "nat \<Rightarrow> 'v DKDTree \<Rightarrow> dpoint \<Rightarrow> 'v \<Rightarrow> 'v DKDTree" where
  "insert_d N T pt val =
     (case findNode_d N (d_root T) pt of
        None \<Rightarrow> T\<lparr>d_root := DNode pt DNull DNull 0 val, d_size := 1\<rparr>
      | Some targetNode \<Rightarrow>
          (case deref_d (d_root T) targetNode of
             DNull \<Rightarrow> T
           | DNode p l r currLevel v \<Rightarrow>
               if dpoint_eq N p pt
               then T\<lparr>d_root := assign_d (d_root T) targetNode (DNode p l r currLevel val)\<rparr>
               else
                 let newNode = DNode pt DNull DNull (currLevel + 1) val
                 in if lt_coord (pt ! (currLevel mod N)) (p ! (currLevel mod N))
                    then T\<lparr>d_root := assign_d (d_root T) targetNode (DNode p newNode r currLevel v),
                           d_size := d_size T + 1\<rparr>
                    else T\<lparr>d_root := assign_d (d_root T) targetNode (DNode p l newNode currLevel v),
                           d_size := d_size T + 1\<rparr>))"

text \<open>\<^verbatim>\<open>at\<close>; \<^verbatim>\<open>node->point != pt\<close> is \<^verbatim>\<open>!(node->point == pt)\<close>.\<close>

definition at_d :: "nat \<Rightarrow> 'v DKDTree \<Rightarrow> dpoint \<Rightarrow> error + 'v" where
  "at_d N T pt =
     (case findNode_d N (d_root T) pt of
        None \<Rightarrow> Inl out_of_range
      | Some node \<Rightarrow>
          (case deref_d (d_root T) node of
             DNull \<Rightarrow> Inl out_of_range
           | DNode p l r lv v \<Rightarrow> if \<not> dpoint_eq N p pt then Inl out_of_range else Inr v))"

text \<open>
  The recursive descriptions of the root after \<^verbatim>\<open>insert\<close> and of the value \<^verbatim>\<open>findNode\<close>
  leads to, as \<open>ins\<close> and \<open>loc\<close> above; lemmas \<open>d_root_insert_d\<close> and \<open>at_d_loc\<close> prove that
  they describe \<open>insert_d\<close> and \<open>at_d\<close>.
\<close>

fun ins_d :: "nat \<Rightarrow> 'v DNode \<Rightarrow> dpoint \<Rightarrow> 'v \<Rightarrow> 'v DNode" where
  "ins_d N DNull pt val = DNode pt DNull DNull 0 val"
| "ins_d N (DNode p l r lv v) pt val =
     (if dpoint_eq N p pt then DNode p l r lv val
      else if lt_coord (pt ! (lv mod N)) (p ! (lv mod N))
      then (if l = DNull then DNode p (DNode pt DNull DNull (lv + 1) val) r lv v
            else DNode p (ins_d N l pt val) r lv v)
      else (if r = DNull then DNode p l (DNode pt DNull DNull (lv + 1) val) lv v
            else DNode p l (ins_d N r pt val) lv v))"

fun loc_d :: "nat \<Rightarrow> 'v DNode \<Rightarrow> dpoint \<Rightarrow> 'v option" where
  "loc_d N DNull pt = None"
| "loc_d N (DNode p l r lv v) pt =
     (if dpoint_eq N p pt then Some v
      else if lt_coord (pt ! (lv mod N)) (p ! (lv mod N)) then loc_d N l pt else loc_d N r pt)"

section \<open>Properties of the bounded priority queue\<close>

lemma mset_multimap_insert: "mset (multimap_insert e xs) = add_mset e (mset xs)"
  by (induction xs) auto

lemma set_multimap_insert: "set (multimap_insert e xs) = insert e (set xs)"
  by (induction xs) auto

lemma length_multimap_insert: "length (multimap_insert e xs) = Suc (length xs)"
  by (induction xs) auto

lemma multimap_insert_ne: "multimap_insert e xs \<noteq> []"
  by (cases xs) auto

lemma sorted_multimap_insert:
  "sorted (map fst xs) \<Longrightarrow> sorted (map fst (multimap_insert e xs))"
  by (induction xs) (auto simp: set_multimap_insert)

lemma sorted_butlast: "sorted xs \<Longrightarrow> sorted (butlast xs)"
  by (induction xs) (auto dest: in_set_butlastD)

lemma sorted_last_max:
  "sorted (map fst xs) \<Longrightarrow> x \<in> set xs \<Longrightarrow> fst x \<le> fst (last xs)"
proof (induction xs)
  case Nil
  then show ?case by simp
next
  case (Cons a xs)
  show ?case
  proof (cases "xs = []")
    case True
    with Cons.prems show ?thesis by simp
  next
    case False
    then have "last xs \<in> set xs" by simp
    with Cons False show ?thesis by auto
  qed
qed

lemma multimap_insert_at_end:
  "\<forall>x \<in> set xs. fst x \<le> fst e \<Longrightarrow> multimap_insert e xs = xs @ [e]"
  by (induction xs) auto

lemma bpq_inv_new: "bpq_inv (BoundedPQueue_new k)"
  by (simp add: bpq_inv_def BoundedPQueue_new_def)

lemma bpq_inv_enqueue: "bpq_inv q \<Longrightarrow> bpq_inv (enqueue q v p)"
  unfolding bpq_inv_def enqueue_def Let_def size_q_def maxSize_def
  by (auto simp: sorted_multimap_insert length_multimap_insert map_butlast
      intro: sorted_butlast)

lemma bpq_inv_dequeue: "bpq_inv q \<Longrightarrow> dequeueMin q = Some (v, q') \<Longrightarrow> bpq_inv q'"
  unfolding bpq_inv_def dequeueMin_def
  by (auto split: list.splits)

lemma bpq_reachable_inv: "bpq_reachable q \<Longrightarrow> bpq_inv q"
  by (induction rule: bpq_reachable.induct)
    (auto intro: bpq_inv_new bpq_inv_enqueue bpq_inv_dequeue)

lemma maximumSize_enqueue: "maximumSize (enqueue q v p) = maximumSize q"
  by (simp add: enqueue_def Let_def)

lemma mset_butlast: "xs \<noteq> [] \<Longrightarrow> mset (butlast xs) = mset xs - {#last xs#}"
  by (induction xs) auto

text \<open>
  C8. In every reachable queue state, \<^verbatim>\<open>enqueue(v, p)\<close> first inserts the pair; if the
  size then exceeds \<open>maxSize\<close> it removes exactly one entry, one whose priority is the
  largest in the queue, and otherwise removes nothing; afterwards the size does not
  exceed \<open>maxSize\<close>.
\<close>

theorem enqueue_inserts_then_evicts_max:
  assumes "bpq_reachable q"
  shows "let es = multimap_insert (p, v) (elems q); q' = enqueue q v p in
           mset es = add_mset (p, v) (mset (elems q)) \<and>
           (if length es > maxSize q
            then (\<exists>e. e \<in> set es \<and> (\<forall>x \<in> set es. fst x \<le> fst e) \<and>
                      mset (elems q') = mset es - {#e#})
            else elems q' = es) \<and>
           size_q q' \<le> maxSize q'"
proof -
  let ?es = "multimap_insert (p, v) (elems q)"
  have inv: "bpq_inv q" using assms by (rule bpq_reachable_inv)
  have srt: "sorted (map fst ?es)"
    using inv by (simp add: bpq_inv_def sorted_multimap_insert)
  have ne: "?es \<noteq> []" by (rule multimap_insert_ne)
  have a: "mset ?es = add_mset (p, v) (mset (elems q))" by (rule mset_multimap_insert)
  have b: "last ?es \<in> set ?es \<and> (\<forall>x \<in> set ?es. fst x \<le> fst (last ?es)) \<and>
      mset (elems (enqueue q v p)) = mset ?es - {#last ?es#}" if big: "length ?es > maxSize q"
  proof -
    have "mset (butlast ?es) = mset ?es - {#last ?es#}"
      using ne by (rule mset_butlast)
    then show ?thesis using big ne sorted_last_max[OF srt]
      by (simp add: enqueue_def Let_def size_q_def maxSize_def)
  qed
  have c: "elems (enqueue q v p) = ?es" if "\<not> length ?es > maxSize q"
    using that by (simp add: enqueue_def Let_def size_q_def maxSize_def)
  have d: "size_q (enqueue q v p) \<le> maxSize (enqueue q v p)"
    using bpq_inv_enqueue[OF inv, of v p] by (simp add: bpq_inv_def size_q_def maxSize_def)
  show ?thesis
  proof (cases "length ?es > maxSize q")
    case True
    from b[OF True] have "\<exists>e. e \<in> set ?es \<and> (\<forall>x \<in> set ?es. fst x \<le> fst e) \<and>
        mset (elems (enqueue q v p)) = mset ?es - {#e#}" by blast
    with a d True show ?thesis by (simp add: Let_def)
  next
    case False
    with a c d show ?thesis by (simp add: Let_def)
  qed
qed

text \<open>
  The theorem at a full queue of capacity 2 holding priorities 1 and 3, with the pair
  (b, 2) enqueued: the entry of priority 3 is the one that goes.
\<close>

theorem enqueue_inserts_then_evicts_max_witness:
  "bpq_reachable (enqueue (enqueue (BoundedPQueue_new 2) ''a'' 1) ''c'' 3) \<and>
   elems (enqueue (enqueue (enqueue (BoundedPQueue_new 2) ''a'' 1) ''c'' 3) ''b'' 2)
     = [(1, ''a''), (2, ''b'')] \<and>
   size_q (enqueue (enqueue (enqueue (BoundedPQueue_new 2) ''a'' 1) ''c'' 3) ''b'' 2)
     \<le> maxSize (enqueue (enqueue (enqueue (BoundedPQueue_new 2) ''a'' 1) ''c'' 3) ''b'' 2)"
proof -
  let ?q = "enqueue (enqueue (BoundedPQueue_new 2) ''a'' 1) ''c'' 3"
  have r: "bpq_reachable ?q"
    by (intro reach_enqueue reach_new)
  have e: "elems (enqueue ?q ''b'' 2) = [(1, ''a''), (2, ''b'')]"
    by (simp add: enqueue_def BoundedPQueue_new_def size_q_def maxSize_def Let_def)
  from enqueue_inserts_then_evicts_max[OF r, of 2 "''b''"]
  have "size_q (enqueue ?q ''b'' 2) \<le> maxSize (enqueue ?q ''b'' 2)"
    by (simp add: Let_def)
  with r e show ?thesis by simp
qed

text \<open>
  C10. For a reachable queue that is full (\<open>size = maxSize > 0\<close>), \<^verbatim>\<open>enqueue(v, p)\<close> with
  \<open>p\<close> greater than or equal to \<open>worst()\<close> stores the new entry behind all others, so the
  new entry is the last one, it is the one that is erased, and the queue is what it was.
\<close>

theorem enqueue_full_not_better_unchanged:
  assumes "bpq_reachable q" "size_q q = maxSize q" "0 < maxSize q" "le_priority (worst q) p"
  shows "multimap_insert (p, v) (elems q) = elems q @ [(p, v)] \<and> enqueue q v p = q"
proof -
  have inv: "bpq_inv q" using assms(1) by (rule bpq_reachable_inv)
  have ne: "elems q \<noteq> []" using assms(2,3) by (auto simp: size_q_def)
  then have w: "fst (last (elems q)) \<le> p" using assms(4) by (simp add: worst_def empty_q_def)
  have "\<forall>x \<in> set (elems q). fst x \<le> p"
    using sorted_last_max[of "elems q"] inv w unfolding bpq_inv_def by fastforce
  then have ins: "multimap_insert (p, v) (elems q) = elems q @ [(p, v)]"
    by (simp add: multimap_insert_at_end)
  then show ?thesis using assms(2)
    by (simp add: enqueue_def Let_def size_q_def maxSize_def)
qed

text \<open>
  The theorem at a full queue of capacity 2 holding priorities 1 and 3, with a pair of
  priority 3 (a tie with the worst) enqueued.
\<close>

theorem enqueue_full_not_better_unchanged_witness:
  "bpq_reachable (enqueue (enqueue (BoundedPQueue_new 2) ''a'' 1) ''c'' 3) \<and>
   size_q (enqueue (enqueue (BoundedPQueue_new 2) ''a'' 1) ''c'' 3) = 2 \<and>
   maxSize (enqueue (enqueue (BoundedPQueue_new 2) ''a'' 1) ''c'' 3) = 2 \<and>
   worst (enqueue (enqueue (BoundedPQueue_new 2) ''a'' 1) ''c'' 3) = Finite 3 \<and>
   enqueue (enqueue (enqueue (BoundedPQueue_new 2) ''a'' 1) ''c'' 3) ''d'' 3
     = enqueue (enqueue (BoundedPQueue_new 2) ''a'' 1) ''c'' 3"
proof -
  let ?q = "enqueue (enqueue (BoundedPQueue_new 2) ''a'' 1) ''c'' 3"
  have r: "bpq_reachable ?q"
    by (intro reach_enqueue reach_new)
  have e: "elems ?q = [(1, ''a''), (3, ''c'')]" "maximumSize ?q = 2"
    by (simp_all add: enqueue_def BoundedPQueue_new_def size_q_def maxSize_def Let_def)
  have s: "size_q ?q = 2" "maxSize ?q = 2" "worst ?q = Finite 3"
    using e by (simp_all add: size_q_def maxSize_def worst_def empty_q_def)
  have "enqueue ?q ''d'' 3 = ?q"
    using enqueue_full_not_better_unchanged[OF r, of 3 "''d''"] s by simp
  with r s show ?thesis by simp
qed


section \<open>The search\<close>





text \<open>
  C1 (the claim fails on the code). Dimension 2, the tree made by inserting
  \<open>(-1/2, 3) \<mapsto> C\<close>, \<open>(0, 5/8) \<mapsto> B\<close>, \<open>(-9/16, 0) \<mapsto> A\<close> into the empty tree, key
  \<open>(0, 0)\<close>, \<open>k = 1\<close>. The squared distances are 37/4, 25/64 and 81/256, so the nearest
  point is \<open>(-9/16, 0)\<close> with label A, which the linear scan returns. \<^verbatim>\<open>kNNValue\<close> returns
  B: at the root the axis difference 1/2 is compared with the squared distance 25/64 of
  the best candidate, \<open>1/2 < 25/64\<close> is false, and the left subtree is never searched.
\<close>

theorem kNNValue_differs_from_linear_scan:
  "map (\<lambda>e. (snd e, Distance 2 (fst e) [0, 0]))
     (entries (kd_root (insert_kd 2 (insert_kd 2 (insert_kd 2 KDTree_empty
        [- 1 / 2, 3] ''C'') [0, 5 / 8] ''B'') [- 9 / 16, 0] ''A'')))
     = [(''C'', 37 / 4), (''A'', 81 / 256), (''B'', 25 / 64)] \<and>
   kNNValue id ''none'' 2
     (insert_kd 2 (insert_kd 2 (insert_kd 2 KDTree_empty
        [- 1 / 2, 3] ''C'') [0, 5 / 8] ''B'') [- 9 / 16, 0] ''A'') [0, 0] 1 = ''B'' \<and>
   naive_kNNValue id ''none'' 2
     (insert_kd 2 (insert_kd 2 (insert_kd 2 KDTree_empty
        [- 1 / 2, 3] ''C'') [0, 5 / 8] ''B'') [- 9 / 16, 0] ''A'') [0, 0] 1 = ''A''"
  by code_simp

section \<open>Point location and insertion\<close>

lemma point_eq_iff: "point_eq N a b \<longleftrightarrow> (\<forall>i<N. a ! i = b ! i)"
  by (auto simp: point_eq_def list_all_iff)

lemma point_eq_refl: "point_eq N a a"
  by (simp add: point_eq_iff)

lemma point_eq_sym: "point_eq N a b \<Longrightarrow> point_eq N b a"
  by (simp add: point_eq_iff)

lemma point_eq_trans: "point_eq N a b \<Longrightarrow> point_eq N b c \<Longrightarrow> point_eq N a c"
  by (simp add: point_eq_iff)

lemma point_eq_axis: "point_eq N a b \<Longrightarrow> \<not> point_eq N c a \<Longrightarrow> a ! (lv mod N) = b ! (lv mod N)"
proof -
  assume ab: "point_eq N a b" and "\<not> point_eq N c a"
  then have "N \<noteq> 0" by (auto simp: point_eq_iff)
  then have "lv mod N < N" by simp
  with ab show ?thesis by (simp add: point_eq_iff)
qed

lemma findNode_Some: "t \<noteq> Null \<Longrightarrow> \<exists>path p l r lv v.
    findNode N t pt = Some path \<and> deref t path = Node p l r lv v \<and>
    (point_eq N p pt \<longrightarrow> loc N t pt = Some v \<and> ins N t pt val = assign t path (Node p l r lv val)) \<and>
    (\<not> point_eq N p pt \<longrightarrow> loc N t pt = None \<and>
       (pt ! (lv mod N) < p ! (lv mod N) \<longrightarrow>
          ins N t pt val = assign t path (Node p (Node pt Null Null (lv + 1) val) r lv v)) \<and>
       (\<not> pt ! (lv mod N) < p ! (lv mod N) \<longrightarrow>
          ins N t pt val = assign t path (Node p l (Node pt Null Null (lv + 1) val) lv v)))"
proof (induction t)
  case Null
  then show ?case by simp
next
  case (Node p l r lv v)
  show ?case
  proof (cases "point_eq N p pt")
    case True
    then show ?thesis by simp
  next
    case ne: False
    show ?thesis
    proof (cases "pt ! (lv mod N) < p ! (lv mod N)")
      case lt: True
      show ?thesis
      proof (cases "l = Null")
        case True
        with ne lt show ?thesis by simp
      next
        case False
        from Node.IH(1)[OF False] obtain path p' l' r' lv' v' where
          "findNode N l pt = Some path" "deref l path = Node p' l' r' lv' v'"
          "point_eq N p' pt \<longrightarrow> loc N l pt = Some v' \<and> ins N l pt val = assign l path (Node p' l' r' lv' val)"
          "\<not> point_eq N p' pt \<longrightarrow> loc N l pt = None \<and>
             (pt ! (lv' mod N) < p' ! (lv' mod N) \<longrightarrow>
                ins N l pt val = assign l path (Node p' (Node pt Null Null (lv' + 1) val) r' lv' v')) \<and>
             (\<not> pt ! (lv' mod N) < p' ! (lv' mod N) \<longrightarrow>
                ins N l pt val = assign l path (Node p' l' (Node pt Null Null (lv' + 1) val) lv' v'))"
          by blast
        with ne lt False show ?thesis
          by (intro exI[of _ "L # path"] exI[of _ p'] exI[of _ l'] exI[of _ r'] exI[of _ lv'] exI[of _ v']) simp
      qed
    next
      case ge: False
      show ?thesis
      proof (cases "r = Null")
        case True
        with ne ge show ?thesis by simp
      next
        case False
        from Node.IH(2)[OF False] obtain path p' l' r' lv' v' where
          "findNode N r pt = Some path" "deref r path = Node p' l' r' lv' v'"
          "point_eq N p' pt \<longrightarrow> loc N r pt = Some v' \<and> ins N r pt val = assign r path (Node p' l' r' lv' val)"
          "\<not> point_eq N p' pt \<longrightarrow> loc N r pt = None \<and>
             (pt ! (lv' mod N) < p' ! (lv' mod N) \<longrightarrow>
                ins N r pt val = assign r path (Node p' (Node pt Null Null (lv' + 1) val) r' lv' v')) \<and>
             (\<not> pt ! (lv' mod N) < p' ! (lv' mod N) \<longrightarrow>
                ins N r pt val = assign r path (Node p' l' (Node pt Null Null (lv' + 1) val) lv' v'))"
          by blast
        with ne ge False show ?thesis
          by (intro exI[of _ "R # path"] exI[of _ p'] exI[of _ l'] exI[of _ r'] exI[of _ lv'] exI[of _ v']) simp
      qed
    qed
  qed
qed

lemma findNode_None: "findNode N t pt = None \<longleftrightarrow> t = Null"
  by (induction t) auto

lemma kd_root_insert_kd: "kd_root (insert_kd N T pt val) = ins N (kd_root T) pt val"
proof (cases "kd_root T = Null")
  case True
  then show ?thesis by (simp add: insert_kd_def)
next
  case False
  from findNode_Some[OF False, of N pt val] show ?thesis
    by (auto simp: insert_kd_def Let_def)
qed

lemma contains_loc: "contains N T pt \<longleftrightarrow> loc N (kd_root T) pt \<noteq> None"
proof (cases "kd_root T = Null")
  case True
  then show ?thesis by (simp add: contains_def)
next
  case False
  from findNode_Some[OF False, of N pt undefined] show ?thesis
    by (auto simp: contains_def)
qed

lemma at_kd_loc:
  "at_kd N T pt = (case loc N (kd_root T) pt of None \<Rightarrow> Inl out_of_range | Some v \<Rightarrow> Inr v)"
proof (cases "kd_root T = Null")
  case True
  then show ?thesis by (simp add: at_kd_def)
next
  case False
  from findNode_Some[OF False, of N pt undefined] show ?thesis
    by (auto simp: at_kd_def)
qed

lemma kd_size_insert_kd:
  "kd_size (insert_kd N T pt val) =
     (if kd_root T = Null then 1 else if contains N T pt then kd_size T else kd_size T + 1)"
proof (cases "kd_root T = Null")
  case True
  then show ?thesis by (simp add: insert_kd_def)
next
  case False
  from findNode_Some[OF False, of N pt val] show ?thesis
    unfolding contains_loc
    by (auto simp: insert_kd_def Let_def)
qed

lemma ins_not_Null: "ins N t pt val \<noteq> Null"
  by (cases t) auto

lemma loc_ins_same: "point_eq N pt q \<Longrightarrow> loc N (ins N t pt val) q = Some val"
proof (induction t)
  case Null
  then show ?case by simp
next
  case (Node p l r lv v)
  have pe: "point_eq N p q \<longleftrightarrow> point_eq N p pt"
    using Node.prems point_eq_trans point_eq_sym by blast
  have ax: "q ! (lv mod N) = pt ! (lv mod N)" if "\<not> point_eq N p pt"
    using point_eq_axis[OF Node.prems that, of lv] by simp
  show ?case
    using Node pe ax by (auto simp: point_eq_refl)
qed

lemma loc_ins_other: "\<not> point_eq N pt q \<Longrightarrow> loc N (ins N t pt val) q = loc N t q"
proof (induction t)
  case Null
  then show ?case by simp
next
  case (Node p l r lv v)
  have pe: "point_eq N p pt \<Longrightarrow> \<not> point_eq N p q"
    using Node.prems point_eq_trans point_eq_sym by blast
  show ?case
    using Node pe by auto
qed


lemma set_points_ins: "set (points (ins N t pt val)) \<subseteq> insert pt (set (points t))"
  by (induction t) (auto simp: points_def)

lemma points_Node: "points (Node p l r lv v) = p # points l @ points r"
  by (simp add: points_def)

lemma points_Null: "points Null = []"
  by (simp add: points_def)

lemma list_all_points_ins:
  "list_all P (points t) \<Longrightarrow> P pt \<Longrightarrow> list_all P (points (ins N t pt val))"
  using set_points_ins[of N t pt val] by (auto simp: list_all_iff)

lemma kd_invariant_ins: "kd_invariant N t \<Longrightarrow> kd_invariant N (ins N t pt val)"
proof (induction t)
  case Null
  then show ?case by (simp add: points_Null)
next
  case (Node p l r lv v)
  then show ?case
    by (auto simp: points_Node points_Null intro: list_all_points_ins)
qed

lemma pairwise_distinct_iff:
  "pairwise_distinct N (xs @ ys) \<longleftrightarrow>
     pairwise_distinct N xs \<and> pairwise_distinct N ys \<and>
     (\<forall>x \<in> set xs. \<forall>y \<in> set ys. \<not> point_eq N x y)"
  by (induction xs) (auto simp: list_all_iff)

lemma points_ins_found: "loc N t pt \<noteq> None \<Longrightarrow> points (ins N t pt val) = points t"
  by (induction t) (auto simp: points_Node split: if_splits)

lemma points_ins_new:
  "loc N t pt = None \<Longrightarrow> t \<noteq> Null \<Longrightarrow> mset (points (ins N t pt val)) = add_mset pt (mset (points t))"
  by (induction t) (auto simp: points_Node points_Null split: if_splits)

lemma loc_None_not_stored:
  "kd_invariant N t \<Longrightarrow> loc N t pt = None \<Longrightarrow> \<not> stored N t pt"
proof (induction t)
  case Null
  then show ?case by (simp add: stored_def points_Null)
next
  case (Node p l r lv v)
  from Node.prems have ne: "\<not> point_eq N p pt" by (auto split: if_splits)
  have ax: "q ! (lv mod N) = pt ! (lv mod N)" if "point_eq N q pt" for q
    using point_eq_axis[OF point_eq_sym[OF that], of p lv] ne by simp
  show ?case
  proof (cases "pt ! (lv mod N) < p ! (lv mod N)")
    case True
    with Node ne have "\<not> stored N l pt" by simp
    moreover have "\<not> point_eq N q pt" if "q \<in> set (points r)" for q
      using that Node.prems(1) True ax[of q] by (auto simp: list_all_iff)
    ultimately show ?thesis using ne
      by (auto simp: stored_def points_Node list_ex_iff)
  next
    case False
    with Node ne have "\<not> stored N r pt" by simp
    moreover have "\<not> point_eq N q pt" if "q \<in> set (points l)" for q
      using that Node.prems(1) False ax[of q] by (auto simp: list_all_iff)
    ultimately show ?thesis using ne
      by (auto simp: stored_def points_Node list_ex_iff)
  qed
qed

lemma loc_Some_stored: "loc N t pt = Some v \<Longrightarrow> stored N t pt"
  by (induction t) (auto simp: stored_def points_Node list_ex_iff split: if_splits)

lemma pairwise_distinct_mset:
  "mset xs = mset ys \<Longrightarrow> pairwise_distinct N xs \<Longrightarrow> pairwise_distinct N ys"
proof (induction xs arbitrary: ys)
  case Nil
  then show ?case by simp
next
  case (Cons x xs)
  then have "x \<in> set ys" by (metis list.set_intros(1) mset_eq_setD)
  then obtain ys1 ys2 where ys: "ys = ys1 @ x # ys2" by (meson split_list)
  with Cons.prems have m: "mset xs = mset (ys1 @ ys2)" by simp
  from Cons.IH[OF m] Cons.prems(2) have d: "pairwise_distinct N (ys1 @ ys2)" by simp
  have s: "set xs = set ys1 \<union> set ys2" using m by (metis mset_eq_setD set_append)
  from Cons.prems(2) have nx: "\<forall>q \<in> set xs. \<not> point_eq N x q" by (simp add: list_all_iff)
  show ?case
    using d nx s unfolding ys pairwise_distinct_iff
    by (auto simp: list_all_iff dest: point_eq_sym)
qed

lemma distinct_points_ins:
  assumes "kd_invariant N t" "distinct_points N t"
  shows "distinct_points N (ins N t pt val)"
proof (cases "loc N t pt")
  case (Some v)
  then show ?thesis using assms(2) by (simp add: distinct_points_def points_ins_found)
next
  case None
  show ?thesis
  proof (cases "t = Null")
    case True
    then show ?thesis by (simp add: distinct_points_def points_Node points_Null)
  next
    case False
    from loc_None_not_stored[OF assms(1) None]
    have "list_all (\<lambda>q. \<not> point_eq N pt q) (points t)"
      by (auto simp: stored_def list_ex_iff list_all_iff dest: point_eq_sym)
    with assms(2) have "pairwise_distinct N (pt # points t)"
      by (simp add: distinct_points_def)
    moreover have "mset (pt # points t) = mset (points (ins N t pt val))"
      using points_ins_new[OF None False] by simp
    ultimately show ?thesis
      unfolding distinct_points_def by (rule pairwise_distinct_mset[rotated])
  qed
qed

lemma length_entries_ins:
  "length (entries (ins N t pt val)) =
     (if t = Null then 1 else if loc N t pt \<noteq> None then length (entries t)
      else length (entries t) + 1)"
  by (induction t) auto

lemma built_by_inserts_inv:
  "built_by_inserts N T \<Longrightarrow>
     kd_invariant N (kd_root T) \<and> distinct_points N (kd_root T) \<and>
     kd_size T = length (entries (kd_root T))"
proof (induction rule: built_by_inserts.induct)
  case built_empty
  then show ?case by (simp add: KDTree_empty_def distinct_points_def points_Null)
next
  case (built_insert T pt val)
  then show ?case
    by (simp add: kd_root_insert_kd kd_invariant_ins distinct_points_ins kd_size_insert_kd
        length_entries_ins contains_loc)
qed

section \<open>Inserting the same point twice, over doubles\<close>

lemma eq_coord_iff: "eq_coord a b \<longleftrightarrow> a = b \<and> a \<noteq> NaN"
  by (cases a; cases b) auto

lemma dpoint_eq_iff: "dpoint_eq N a b \<longleftrightarrow> (\<forall>i<N. a ! i = b ! i \<and> a ! i \<noteq> NaN)"
  by (auto simp: dpoint_eq_def list_all_iff eq_coord_iff)

lemma no_nan_iff: "no_nan N p \<longleftrightarrow> (\<forall>i<N. p ! i \<noteq> NaN)"
  by (auto simp: no_nan_def list_all_iff)

text \<open>A point is equal to itself exactly when it has no NaN coordinate.\<close>

lemma dpoint_eq_refl_iff: "dpoint_eq N p p \<longleftrightarrow> no_nan N p"
  by (simp add: dpoint_eq_iff no_nan_iff)

lemma dpoint_eq_no_nan: "dpoint_eq N q p \<Longrightarrow> no_nan N p"
  by (auto simp: dpoint_eq_iff no_nan_iff)

text \<open>What \<^verbatim>\<open>findNode\<close> returns on a non-empty tree, and what \<^verbatim>\<open>insert\<close> then writes.\<close>

lemma findNode_d_Some: "t \<noteq> DNull \<Longrightarrow> \<exists>path p l r lv v.
    findNode_d N t pt = Some path \<and> deref_d t path = DNode p l r lv v \<and>
    (dpoint_eq N p pt \<longrightarrow> loc_d N t pt = Some v \<and>
       ins_d N t pt val = assign_d t path (DNode p l r lv val)) \<and>
    (\<not> dpoint_eq N p pt \<longrightarrow> loc_d N t pt = None \<and>
       (lt_coord (pt ! (lv mod N)) (p ! (lv mod N)) \<longrightarrow>
          ins_d N t pt val = assign_d t path (DNode p (DNode pt DNull DNull (lv + 1) val) r lv v)) \<and>
       (\<not> lt_coord (pt ! (lv mod N)) (p ! (lv mod N)) \<longrightarrow>
          ins_d N t pt val = assign_d t path (DNode p l (DNode pt DNull DNull (lv + 1) val) lv v)))"
proof (induction t)
  case DNull
  then show ?case by simp
next
  case (DNode p l r lv v)
  show ?case
  proof (cases "dpoint_eq N p pt")
    case True
    then show ?thesis by simp
  next
    case ne: False
    show ?thesis
    proof (cases "lt_coord (pt ! (lv mod N)) (p ! (lv mod N))")
      case lt: True
      show ?thesis
      proof (cases "l = DNull")
        case True
        with ne lt show ?thesis by simp
      next
        case False
        from DNode.IH(1)[OF False] obtain path p' l' r' lv' v' where
          "findNode_d N l pt = Some path" "deref_d l path = DNode p' l' r' lv' v'"
          "dpoint_eq N p' pt \<longrightarrow> loc_d N l pt = Some v' \<and>
             ins_d N l pt val = assign_d l path (DNode p' l' r' lv' val)"
          "\<not> dpoint_eq N p' pt \<longrightarrow> loc_d N l pt = None \<and>
             (lt_coord (pt ! (lv' mod N)) (p' ! (lv' mod N)) \<longrightarrow>
                ins_d N l pt val
                  = assign_d l path (DNode p' (DNode pt DNull DNull (lv' + 1) val) r' lv' v')) \<and>
             (\<not> lt_coord (pt ! (lv' mod N)) (p' ! (lv' mod N)) \<longrightarrow>
                ins_d N l pt val
                  = assign_d l path (DNode p' l' (DNode pt DNull DNull (lv' + 1) val) lv' v'))"
          by blast
        with ne lt False show ?thesis
          by (intro exI[of _ "L # path"] exI[of _ p'] exI[of _ l'] exI[of _ r'] exI[of _ lv']
                exI[of _ v']) simp
      qed
    next
      case ge: False
      show ?thesis
      proof (cases "r = DNull")
        case True
        with ne ge show ?thesis by simp
      next
        case False
        from DNode.IH(2)[OF False] obtain path p' l' r' lv' v' where
          "findNode_d N r pt = Some path" "deref_d r path = DNode p' l' r' lv' v'"
          "dpoint_eq N p' pt \<longrightarrow> loc_d N r pt = Some v' \<and>
             ins_d N r pt val = assign_d r path (DNode p' l' r' lv' val)"
          "\<not> dpoint_eq N p' pt \<longrightarrow> loc_d N r pt = None \<and>
             (lt_coord (pt ! (lv' mod N)) (p' ! (lv' mod N)) \<longrightarrow>
                ins_d N r pt val
                  = assign_d r path (DNode p' (DNode pt DNull DNull (lv' + 1) val) r' lv' v')) \<and>
             (\<not> lt_coord (pt ! (lv' mod N)) (p' ! (lv' mod N)) \<longrightarrow>
                ins_d N r pt val
                  = assign_d r path (DNode p' l' (DNode pt DNull DNull (lv' + 1) val) lv' v'))"
          by blast
        with ne ge False show ?thesis
          by (intro exI[of _ "R # path"] exI[of _ p'] exI[of _ l'] exI[of _ r'] exI[of _ lv']
                exI[of _ v']) simp
      qed
    qed
  qed
qed

lemma d_root_insert_d: "d_root (insert_d N T pt val) = ins_d N (d_root T) pt val"
proof (cases "d_root T = DNull")
  case True
  then show ?thesis by (simp add: insert_d_def)
next
  case False
  from findNode_d_Some[OF False, of N pt val] show ?thesis
    by (auto simp: insert_d_def Let_def)
qed

lemma at_d_loc:
  "at_d N T pt = (case loc_d N (d_root T) pt of None \<Rightarrow> Inl out_of_range | Some v \<Rightarrow> Inr v)"
proof (cases "d_root T = DNull")
  case True
  then show ?thesis by (simp add: at_d_def)
next
  case False
  from findNode_d_Some[OF False, of N pt undefined] show ?thesis
    by (auto simp: at_d_def)
qed

lemma d_size_insert_d:
  "d_size (insert_d N T pt val) =
     (if d_root T = DNull then 1 else if loc_d N (d_root T) pt \<noteq> None then d_size T
      else d_size T + 1)"
proof (cases "d_root T = DNull")
  case True
  then show ?thesis by (simp add: insert_d_def)
next
  case False
  from findNode_d_Some[OF False, of N pt val] show ?thesis
    by (auto simp: insert_d_def Let_def)
qed

lemma ins_d_not_DNull: "ins_d N t pt val \<noteq> DNull"
  by (cases t) auto

lemma loc_d_ins_d_same: "dpoint_eq N p p \<Longrightarrow> loc_d N (ins_d N t p val) p = Some val"
  by (induction t) auto

lemma loc_d_Some_no_nan: "loc_d N t p = Some v \<Longrightarrow> no_nan N p"
  by (induction t) (auto split: if_splits dest: dpoint_eq_no_nan)

text \<open>
  A point with a NaN coordinate is never found: \<^verbatim>\<open>at\<close> throws for it on every tree, and
  every \<^verbatim>\<open>insert\<close> of it into a non-empty tree adds a node.
\<close>

lemma at_d_nan_raises: "\<not> no_nan N p \<Longrightarrow> at_d N T p = Inl out_of_range"
  using loc_d_Some_no_nan[of N "d_root T" p]
  by (cases "loc_d N (d_root T) p") (auto simp: at_d_loc)

lemma insert_d_nan_grows:
  "\<not> no_nan N p \<Longrightarrow> d_root T \<noteq> DNull \<Longrightarrow> size_d (insert_d N T p val) = size_d T + 1"
  using loc_d_Some_no_nan[of N "d_root T" p]
  by (cases "loc_d N (d_root T) p") (auto simp: d_size_insert_d size_d_def)

text \<open>
  C5 as stated fails at the point \<open>(NaN, 4)\<close>. On the empty tree of dimension 2, the first
  \<^verbatim>\<open>insert\<close> makes the root and the size 1. The second \<^verbatim>\<open>insert\<close> of the same point finds the
  root unequal to it, adds a right child and makes the size 2, and \<^verbatim>\<open>at\<close> then throws
  \<^verbatim>\<open>std::out_of_range\<close> instead of returning the second label.
\<close>

theorem insert_twice_nan_point:
  "size_d (insert_d 2 DKDTree_empty [NaN, Num 4] ''a'') = 1 \<and>
   size_d (insert_d 2 (insert_d 2 DKDTree_empty [NaN, Num 4] ''a'') [NaN, Num 4] ''b'') = 2 \<and>
   d_root (insert_d 2 (insert_d 2 DKDTree_empty [NaN, Num 4] ''a'') [NaN, Num 4] ''b'')
     = DNode [NaN, Num 4] DNull (DNode [NaN, Num 4] DNull DNull 1 ''b'') 0 ''a'' \<and>
   at_d 2 (insert_d 2 (insert_d 2 DKDTree_empty [NaN, Num 4] ''a'') [NaN, Num 4] ''b'')
     [NaN, Num 4] = Inl out_of_range"
  by code_simp

text \<open>
  C5, amended. For every tree (its stored points may have NaN coordinates), every point
  \<open>p\<close> none of whose coordinates is NaN, and labels \<open>v1\<close>, \<open>v2\<close>: after \<^verbatim>\<open>insert(p, v1)\<close> and
  then \<^verbatim>\<open>insert(p, v2)\<close> the size is the size after the first insert alone, and \<^verbatim>\<open>at(p)\<close>
  returns \<open>v2\<close>.
\<close>

theorem insert_twice_same_point_no_nan:
  assumes "no_nan N p"
  shows "size_d (insert_d N (insert_d N T p v1) p v2) = size_d (insert_d N T p v1) \<and>
         at_d N (insert_d N (insert_d N T p v1) p v2) p = Inr v2"
proof -
  let ?T1 = "insert_d N T p v1"
  from assms have refl: "dpoint_eq N p p" by (simp add: dpoint_eq_refl_iff)
  have root: "d_root ?T1 \<noteq> DNull"
    by (simp add: d_root_insert_d ins_d_not_DNull)
  have "loc_d N (d_root ?T1) p = Some v1"
    using refl by (simp add: d_root_insert_d loc_d_ins_d_same)
  with root have size: "d_size (insert_d N ?T1 p v2) = d_size ?T1"
    by (simp add: d_size_insert_d)
  have "loc_d N (d_root (insert_d N ?T1 p v2)) p = Some v2"
    using refl by (simp add: d_root_insert_d loc_d_ins_d_same)
  then have "at_d N (insert_d N ?T1 p v2) p = Inr v2"
    by (simp add: at_d_loc)
  with size show ?thesis by (simp add: size_d_def)
qed

text \<open>
  The amended property at the point \<open>(1, +infinity)\<close>, inserted twice into the tree that
  already stores \<open>(NaN, 4)\<close>: the size is 2 after the first insert and after the second,
  and \<^verbatim>\<open>at\<close> returns the second label.
\<close>

theorem insert_twice_same_point_no_nan_witness:
  "no_nan 2 [Num 1, PInf] \<and>
   size_d (insert_d 2 (insert_d 2 DKDTree_empty [NaN, Num 4] ''n'') [Num 1, PInf] ''a'') = 2 \<and>
   size_d (insert_d 2 (insert_d 2 (insert_d 2 DKDTree_empty [NaN, Num 4] ''n'')
      [Num 1, PInf] ''a'') [Num 1, PInf] ''b'') = 2 \<and>
   at_d 2 (insert_d 2 (insert_d 2 (insert_d 2 DKDTree_empty [NaN, Num 4] ''n'')
      [Num 1, PInf] ''a'') [Num 1, PInf] ''b'') [Num 1, PInf] = Inr ''b''"
proof -
  have n: "no_nan 2 [Num 1, PInf]" by code_simp
  have s: "size_d (insert_d 2 (insert_d 2 DKDTree_empty [NaN, Num 4] ''n'')
             [Num 1, PInf] ''a'') = 2"
    by code_simp
  from insert_twice_same_point_no_nan[OF n,
      of "insert_d 2 DKDTree_empty [NaN, Num 4] ''n''" "''a''" "''b''"] n s
  show ?thesis by simp
qed

section \<open>Bulk construction\<close>

lemma insort_by_cmp: "insort_by (cmp axis) x ys = insort_key (\<lambda>e. fst e ! axis) x ys"
  by (induction ys) (auto simp: cmp_def)

lemma isort_by_cmp: "isort_by (cmp axis) xs = sort_key (\<lambda>e. fst e ! axis) xs"
  by (simp add: isort_by_def sort_key_def insort_by_cmp[abs_def])

lemma partitioned_iff:
  "partitioned c v start n end' \<longleftrightarrow>
     (\<forall>i j. start \<le> i \<and> i < n \<and> n \<le> j \<and> j < end' \<longrightarrow> \<not> c (v ! j) (v ! i)) \<and>
     (\<forall>j. n < j \<and> j < end' \<longrightarrow> \<not> c (v ! j) (v ! n))"
  by (auto simp: partitioned_def list_all_iff)

lemma slice_length: "end' \<le> length v \<Longrightarrow> length (slice v start end') = end' - start"
  by (simp add: slice_def)

lemma sel_sort_post:
  assumes "start \<le> n" "n < end'" "end' \<le> length v"
  shows "nth_element_post (cmp axis) v start n end' (sel_sort (cmp axis) v start n end')"
proof -
  let ?key = "\<lambda>e::point \<times> 'a. fst e ! axis"
  let ?ys = "sort_key ?key (slice v start end')"
  let ?v' = "take start v @ ?ys @ drop end' v"
  have v': "sel_sort (cmp axis) v start n end' = ?v'"
    by (simp add: sel_sort_def isort_by_cmp)
  have ly: "length ?ys = end' - start" using assms by (simp add: slice_length)
  have lt: "length (take start v) = start" using assms by simp
  have 1: "length ?v' = length v" using assms ly by simp
  have 2: "take start ?v' = take start v" using lt by simp
  have 3: "drop end' ?v' = drop end' v" using assms ly lt by simp
  have 4: "slice ?v' start end' = ?ys" using ly lt by (simp add: slice_def)
  have 5: "\<not> cmp axis (?v' ! j) (?v' ! i)" if "start \<le> i" "i < n" "n \<le> j" "j < end'" for i j
  proof -
    have bi: "i - start < end' - start" and bj: "j - start < end' - start"
      using that assms by linarith+
    have i: "?v' ! i = ?ys ! (i - start)" using that assms ly lt bi
      by (simp add: nth_append)
    have j: "?v' ! j = ?ys ! (j - start)" using that assms ly lt bj
      by (simp add: nth_append)
    have "sorted (map ?key ?ys)" by simp
    moreover have "i - start \<le> j - start" "j - start < length (map ?key ?ys)"
      using that assms ly by auto
    ultimately have "map ?key ?ys ! (i - start) \<le> map ?key ?ys ! (j - start)"
      by (rule sorted_nth_mono)
    then have "?key (?ys ! (i - start)) \<le> ?key (?ys ! (j - start))"
      using that assms ly by simp
    then show ?thesis unfolding i j by (simp add: cmp_def)
  qed
  show ?thesis
    unfolding v' nth_element_post_def using 1 2 3 4 5 by simp
qed

lemma sel_sort_ok: "nth_element_ok sel_sort"
  unfolding nth_element_ok_def using sel_sort_post by blast

lemma sel_keep_ok: "nth_element_ok sel_keep"
  unfolding nth_element_ok_def
proof (intro allI impI)
  fix axis :: nat and v :: "(point \<times> 'a) list" and start n end'
  assume a: "start \<le> n \<and> n < end' \<and> end' \<le> length v"
  show "nth_element_post (cmp axis) v start n end' (sel_keep (cmp axis) v start n end')"
  proof (cases "partitioned (cmp axis) v start n end'")
    case True
    then show ?thesis
      by (simp add: sel_keep_def nth_element_post_def partitioned_iff)
  next
    case False
    then show ?thesis using a sel_sort_post[of start n end' v axis]
      by (simp add: sel_keep_def)
  qed
qed


lemma slice_empty: "end' \<le> start \<Longrightarrow> slice v start end' = []"
  by (simp add: slice_def)

lemma slice_drop_take: "slice v start end' = drop start (take end' v)"
  by (simp add: slice_def drop_take)

lemma slice_split:
  assumes "start \<le> m" "m < end'" "end' \<le> length v"
  shows "slice v start end' = slice v start m @ v ! m # slice v (Suc m) end'"
proof -
  have e: "end' - start = (m - start) + (end' - m)" using assms by simp
  have "slice v start end' = take (m - start) (drop start v) @ take (end' - m) (drop m v)"
    unfolding slice_def e take_add using assms by simp
  also have "drop m v = v ! m # drop (Suc m) v"
    using assms by (simp add: Cons_nth_drop_Suc)
  also have "take (end' - m) (v ! m # drop (Suc m) v) = v ! m # take (end' - Suc m) (drop (Suc m) v)"
  proof -
    have "end' - m = Suc (end' - Suc m)" using assms by simp
    then show ?thesis by (simp only: take_Suc_Cons)
  qed
  finally show ?thesis by (simp add: slice_def)
qed

text \<open>Both selections keep the full promise of the standard.\<close>

lemma sel_sort_std_post:
  assumes "start \<le> n" "n < end'" "end' \<le> length v"
  shows "nth_element_std_post (cmp axis) v start n end' (sel_sort (cmp axis) v start n end')"
proof -
  let ?key = "\<lambda>e::point \<times> 'a. fst e ! axis"
  let ?ys = "sort_key ?key (slice v start end')"
  let ?v' = "take start v @ ?ys @ drop end' v"
  have v': "sel_sort (cmp axis) v start n end' = ?v'"
    by (simp add: sel_sort_def isort_by_cmp)
  have ly: "length ?ys = end' - start" using assms by (simp add: slice_length)
  have lt: "length (take start v) = start" using assms by simp
  have "\<not> cmp axis (?v' ! j) (?v' ! n)" if "n < j" "j < end'" for j
  proof -
    have bn: "n - start < end' - start" and bj: "j - start < end' - start"
      using that assms by linarith+
    have n: "?v' ! n = ?ys ! (n - start)" using that assms ly lt bn
      by (simp add: nth_append)
    have j: "?v' ! j = ?ys ! (j - start)" using that assms ly lt bj
      by (simp add: nth_append)
    have "sorted (map ?key ?ys)" by simp
    moreover have "n - start \<le> j - start" "j - start < length (map ?key ?ys)"
      using that assms ly by auto
    ultimately have "map ?key ?ys ! (n - start) \<le> map ?key ?ys ! (j - start)"
      by (rule sorted_nth_mono)
    then have "?key (?ys ! (n - start)) \<le> ?key (?ys ! (j - start))"
      using that assms ly by simp
    then show ?thesis unfolding n j by (simp add: cmp_def)
  qed
  with sel_sort_post[OF assms, of axis] show ?thesis
    unfolding v' nth_element_std_post_def by simp
qed

lemma sel_sort_std: "nth_element_std sel_sort"
  unfolding nth_element_std_def using sel_sort_std_post by blast

lemma sel_keep_std: "nth_element_std sel_keep"
  unfolding nth_element_std_def
proof (intro allI impI)
  fix axis :: nat and v :: "(point \<times> 'a) list" and start n end'
  assume a: "start \<le> n \<and> n < end' \<and> end' \<le> length v"
  show "nth_element_std_post (cmp axis) v start n end' (sel_keep (cmp axis) v start n end')"
  proof (cases "partitioned (cmp axis) v start n end'")
    case True
    then show ?thesis
      by (simp add: sel_keep_def nth_element_std_post_def nth_element_post_def partitioned_iff)
  next
    case False
    then show ?thesis using a sel_sort_std_post[of start n end' v axis]
      by (simp add: sel_keep_def)
  qed
qed

text \<open>
  The standard's sentence, from \<open>nth_element_std_post\<close>: the element at \<open>nth\<close> has the key
  that a sort of the range by the key puts at that position.
\<close>

lemma sorted_keys_unique:
  fixes k :: "'a \<Rightarrow> real"
  assumes "sorted (map k s)" "mset s = mset xs"
  shows "map k s = map k (sort_key k xs)"
proof -
  have "mset (map k s) = mset (map k xs)" using assms(2) by (metis mset_map)
  then have 1: "sort (map k xs) = map k s" using assms(1) by (rule properties_for_sort)
  have "mset (map k (sort_key k xs)) = mset (map k xs)" by simp
  then have "sort (map k xs) = map k (sort_key k xs)"
    by (rule properties_for_sort) simp
  with 1 show ?thesis by simp
qed

lemma nth_element_std_sorted_position:
  assumes "start \<le> n" "n < end'" "end' \<le> length v"
    and post: "nth_element_std_post (cmp axis) v start n end' v'"
  shows "fst (v' ! n) ! axis
           = fst (sort_key (\<lambda>e. fst e ! axis) (slice v start end') ! (n - start)) ! axis"
proof -
  let ?k = "\<lambda>e::point \<times> 'a. fst e ! axis"
  let ?a = "slice v' start n" and ?b = "slice v' (Suc n) end'"
  let ?s = "sort_key ?k ?a @ v' ! n # sort_key ?k ?b"
  from post have len: "length v' = length v"
    and ms: "mset (slice v' start end') = mset (slice v start end')"
    and before: "\<And>i. start \<le> i \<Longrightarrow> i < n \<Longrightarrow> \<not> cmp axis (v' ! n) (v' ! i)"
    and after: "\<And>j. n < j \<Longrightarrow> j < end' \<Longrightarrow> \<not> cmp axis (v' ! j) (v' ! n)"
    using assms(2) by (auto simp: nth_element_std_post_def nth_element_post_def)
  have e: "end' \<le> length v'" using assms len by simp
  have split: "slice v' start end' = ?a @ v' ! n # ?b"
    using assms e by (intro slice_split) simp_all
  have la: "length ?a = n - start" using assms e by (simp add: slice_length)
  have a_le: "?k x \<le> ?k (v' ! n)" if "x \<in> set ?a" for x
  proof -
    from that obtain m where m: "m < n - start" "x = ?a ! m"
      using la by (metis in_set_conv_nth)
    then have x: "x = v' ! (start + m)" using assms e by (simp add: slice_def)
    have "start \<le> start + m" "start + m < n" using m(1) by simp_all
    then have "\<not> cmp axis (v' ! n) (v' ! (start + m))" by (rule before)
    then show ?thesis unfolding x by (simp add: cmp_def)
  qed
  have lb: "length ?b = end' - Suc n" using assms e by (simp add: slice_length)
  have b_ge: "?k (v' ! n) \<le> ?k x" if "x \<in> set ?b" for x
  proof -
    from that obtain m where m: "m < end' - Suc n" "x = ?b ! m"
      using lb by (metis in_set_conv_nth)
    then have x: "x = v' ! (Suc n + m)" using assms e by (simp add: slice_def)
    have "n < Suc n + m" "Suc n + m < end'" using m(1) by simp_all
    then have "\<not> cmp axis (v' ! (Suc n + m)) (v' ! n)" by (rule after)
    then show ?thesis unfolding x by (simp add: cmp_def)
  qed
  have "sorted (map ?k ?s)"
    using a_le b_ge by (fastforce simp: sorted_append)
  moreover have "mset ?s = mset (slice v start end')"
    using ms split by simp
  ultimately have "map ?k ?s = map ?k (sort_key ?k (slice v start end'))"
    by (rule sorted_keys_unique)
  then have "map ?k ?s ! (n - start) = map ?k (sort_key ?k (slice v start end')) ! (n - start)"
    by simp
  moreover have "map ?k ?s ! (n - start) = ?k (v' ! n)"
    using la by (simp add: nth_append)
  moreover have "n - start < length (sort_key ?k (slice v start end'))"
    using assms by (simp add: slice_length)
  ultimately show ?thesis by simp
qed

lemma slice_cong_drop:
  "drop a v2 = drop a v1 \<Longrightarrow> a \<le> start \<Longrightarrow> slice v2 start end' = slice v1 start end'"
proof -
  assume d: "drop a v2 = drop a v1" and le: "a \<le> start"
  have "drop start v2 = drop (start - a) (drop a v2)" using le by simp
  also have "\<dots> = drop start v1" using d le by simp
  finally show ?thesis by (simp add: slice_def)
qed

lemma slice_cong_take:
  "take b v2 = take b v1 \<Longrightarrow> end' \<le> b \<Longrightarrow> slice v2 start end' = slice v1 start end'"
proof -
  assume t: "take b v2 = take b v1" and le: "end' \<le> b"
  have "take end' v2 = take end' (take b v2)" using le by (simp add: min_def)
  also have "\<dots> = take end' v1" using t le by (simp add: min_def)
  finally show ?thesis by (simp add: slice_drop_take)
qed

lemma take_cong_take: "take b v2 = take b v1 \<Longrightarrow> a \<le> b \<Longrightarrow> take a v2 = take a v1"
proof -
  assume t: "take b v2 = take b v1" and le: "a \<le> b"
  have "take a v2 = take a (take b v2)" using le by (simp add: min_def)
  also have "\<dots> = take a v1" using t le by (simp add: min_def)
  finally show ?thesis .
qed

lemma drop_cong_drop: "drop a v2 = drop a v1 \<Longrightarrow> a \<le> b \<Longrightarrow> drop b v2 = drop b v1"
proof -
  assume d: "drop a v2 = drop a v1" and le: "a \<le> b"
  have "drop b v2 = drop (b - a) (drop a v2)" using le by simp
  also have "\<dots> = drop b v1" using d le by simp
  finally show ?thesis .
qed

lemma buildTree_post:
  assumes ok: "nth_element_ok sel"
  shows "end' - start = n \<Longrightarrow> end' \<le> length v \<Longrightarrow>
         build_post v start end' (buildTree sel N v start end' lvl)"
proof (induction n arbitrary: v start end' lvl rule: less_induct)
  case (less n)
  show ?case
  proof (cases "end' \<le> start")
    case True
    then show ?thesis
      by (subst buildTree.simps) (simp add: build_post_def slice_empty)
  next
    case False
    define axis where "axis = lvl mod N"
    define mid where "mid = start + (end' - start) div 2"
    define v1 where "v1 = sel (cmp axis) v start mid end'"
    define mid' where "mid' = walk_left axis v1 start mid"
    obtain l v2 where b1: "buildTree sel N v1 start mid' (lvl + 1) = (l, v2)"
      by (cases "buildTree sel N v1 start mid' (lvl + 1)")
    obtain r v3 where b2: "buildTree sel N v2 (mid' + 1) end' (lvl + 1) = (r, v3)"
      by (cases "buildTree sel N v2 (mid' + 1) end' (lvl + 1)")
    have res: "buildTree sel N v start end' lvl = (Node (fst (v1 ! mid')) l r lvl (snd (v1 ! mid')), v3)"
      using False b1 b2
      by (subst buildTree.simps) (simp add: Let_def axis_def mid_def v1_def mid'_def)
    have m: "start \<le> mid" "mid < end'" using False by (auto simp: mid_def)
    have m': "start \<le> mid'" "mid' \<le> mid"
      using m walk_left_ge[of start mid axis v1] walk_left_le[of axis v1 start mid]
      by (auto simp: mid'_def)
    from ok m less.prems have "nth_element_post (cmp axis) v start mid end' v1"
      unfolding nth_element_ok_def v1_def by blast
    then have p: "length v1 = length v" "take start v1 = take start v" "drop end' v1 = drop end' v"
      "mset (slice v1 start end') = mset (slice v start end')"
      by (auto simp: nth_element_post_def)
    have "build_post v1 start mid' (buildTree sel N v1 start mid' (lvl + 1))"
      using less.IH[of "mid' - start" mid' start v1 "lvl + 1"] m m' less.prems p(1) by simp
    then have q: "length v2 = length v1" "take start v2 = take start v1"
      "drop mid' v2 = drop mid' v1" "mset (entries l) = mset (slice v1 start mid')"
      unfolding b1 build_post_def by simp_all
    have "build_post v2 (mid' + 1) end' (buildTree sel N v2 (mid' + 1) end' (lvl + 1))"
      using less.IH[of "end' - (mid' + 1)" end' "mid' + 1" v2 "lvl + 1"] m m' less.prems p(1) q(1)
      by simp
    then have u: "length v3 = length v2" "take (mid' + 1) v3 = take (mid' + 1) v2"
      "drop end' v3 = drop end' v2" "mset (entries r) = mset (slice v2 (mid' + 1) end')"
      unfolding b2 build_post_def by simp_all
    have s2: "slice v2 (mid' + 1) end' = slice v1 (mid' + 1) end'"
      using q(3) by (rule slice_cong_drop) simp
    have sp: "slice v1 start end' = slice v1 start mid' @ v1 ! mid' # slice v1 (Suc mid') end'"
      using m m' less.prems p(1) by (intro slice_split) auto
    have 1: "length v3 = length v" using u q p by simp
    have 2: "take start v3 = take start v"
      using take_cong_take[OF u(2), of start] m' q(2) p(2) by simp
    have 3: "drop end' v3 = drop end' v"
      using u(3) drop_cong_drop[OF q(3), of end'] m m' p(3) by simp
    have 4: "mset (entries (Node (fst (v1 ! mid')) l r lvl (snd (v1 ! mid')))) = mset (slice v start end')"
      using q(4) u(4) s2 sp p(4) by simp
    show ?thesis
      unfolding res build_post_def using 1 2 3 4 by simp
  qed
qed

lemma mset_entries_bulk:
  "nth_element_ok sel \<Longrightarrow> mset (entries (kd_root (KDTree_bulk sel N pts))) = mset pts"
  using buildTree_post[of sel "length pts" 0 "length pts" pts N 0]
  by (simp add: KDTree_bulk_def build_post_def slice_def)

lemma distinct_points_bulk:
  assumes "nth_element_ok sel" "pairwise_distinct N (map fst pts)"
  shows "distinct_points N (kd_root (KDTree_bulk sel N pts))"
proof -
  have "mset (points (kd_root (KDTree_bulk sel N pts)))
      = image_mset fst (mset (entries (kd_root (KDTree_bulk sel N pts))))"
    by (simp add: points_def)
  then have "mset (map fst pts) = mset (points (kd_root (KDTree_bulk sel N pts)))"
    using mset_entries_bulk[OF assms(1), of N pts] by simp
  then show ?thesis
    unfolding distinct_points_def using assms(2) by (rule pairwise_distinct_mset)
qed

text \<open>
  C3 (the claim fails on the code). Dimension 2, bulk construction from the vector
  \<open>(2,0) \<mapsto> a, (1,0) \<mapsto> b, (2,1) \<mapsto> c, (3,0) \<mapsto> d\<close>, which is already partitioned around
  its element 2 on axis 0, so \<^verbatim>\<open>nth_element\<close> may leave it as it is (\<open>sel_keep\<close>,
  which keeps the standard's full promise by lemma \<open>sel_keep_std\<close>). The element before the
  median \<open>(2,1)\<close> is \<open>(1,0)\<close>, the walk to the left stops at once, and \<open>(2,0)\<close> stays in the
  left range: the root \<open>(2,1)\<close> of level 0 has \<open>(2,0)\<close> in its left subtree, whose
  coordinate 0 is not strictly less.
\<close>

theorem bulk_breaks_axis_invariant:
  "kd_root (KDTree_bulk sel_keep 2
      [([2, 0], ''a''), ([1, 0], ''b''), ([2, 1], ''c''), ([3, 0], ''d'')])
     = Node [2, 1] (Node [2, 0] Null (Node [1, 0] Null Null 2 ''b'') 1 ''a'')
         (Node [3, 0] Null Null 1 ''d'') 0 ''c'' \<and>
   \<not> kd_invariant 2 (kd_root (KDTree_bulk sel_keep 2
      [([2, 0], ''a''), ([1, 0], ''b''), ([2, 1], ''c''), ([3, 0], ''d'')]))"
  by code_simp

text \<open>
  C6 (the claim fails on the code). In the tree of C3 the point \<open>(2,0)\<close> is stored, and
  \<^verbatim>\<open>contains((2,0))\<close> is false: \<^verbatim>\<open>findNode\<close> goes right at the root, since \<open>2 < 2\<close> is false.
\<close>

theorem bulk_hides_stored_point:
  "stored 2 (kd_root (KDTree_bulk sel_keep 2
      [([2, 0], ''a''), ([1, 0], ''b''), ([2, 1], ''c''), ([3, 0], ''d'')])) [2, 0] \<and>
   \<not> contains 2 (KDTree_bulk sel_keep 2
      [([2, 0], ''a''), ([1, 0], ''b''), ([2, 1], ''c''), ([3, 0], ''d'')]) [2, 0]"
  by code_simp

text \<open>
  C7 (the claim fails on the code). In the tree of C3 the point \<open>(2,0)\<close> is stored, and
  \<^verbatim>\<open>at((2,0))\<close> throws \<^verbatim>\<open>out_of_range\<close>.
\<close>

theorem at_raises_for_stored_point:
  "stored 2 (kd_root (KDTree_bulk sel_keep 2
      [([2, 0], ''a''), ([1, 0], ''b''), ([2, 1], ''c''), ([3, 0], ''d'')])) [2, 0] \<and>
   at_kd 2 (KDTree_bulk sel_keep 2
      [([2, 0], ''a''), ([1, 0], ''b''), ([2, 1], ''c''), ([3, 0], ''d'')]) [2, 0]
     = Inl out_of_range"
  by code_simp

text \<open>
  C4 as stated fails: bulk construction makes one node of every pair of the vector.
  Dimension 1, the vector \<open>(5) \<mapsto> a, (5) \<mapsto> b\<close>: the tree has two nodes that hold \<open>(5)\<close>.
\<close>

theorem bulk_keeps_equal_points:
  "kd_root (KDTree_bulk sel_keep 1 [([5], ''a''), ([5], ''b'')])
     = Node [5] Null (Node [5] Null Null 1 ''b'') 0 ''a'' \<and>
   \<not> distinct_points 1 (kd_root (KDTree_bulk sel_keep 1 [([5], ''a''), ([5], ''b'')]))"
  by code_simp


text \<open>
  C4, amended. In every tree that a sequence of inserts makes of the empty tree no two
  nodes hold equal points, and inserting a point equal to a stored one overwrites its
  label instead of creating a node: the size and the stored points stay, and \<^verbatim>\<open>at\<close>
  returns the new label. A tree bulk-constructed from pairwise distinct points holds no
  two equal points either, whatever \<^verbatim>\<open>nth_element\<close> does within its promise.
\<close>

theorem no_equal_points_by_inserts_or_distinct_bulk:
  "(built_by_inserts N T \<longrightarrow>
      distinct_points N (kd_root T) \<and>
      (stored N (kd_root T) pt \<longrightarrow>
         size_kd (insert_kd N T pt val) = size_kd T \<and>
         points (kd_root (insert_kd N T pt val)) = points (kd_root T) \<and>
         at_kd N (insert_kd N T pt val) pt = Inr val)) \<and>
   (nth_element_ok sel \<and> pairwise_distinct N (map fst pts) \<longrightarrow>
      distinct_points N (kd_root (KDTree_bulk sel N pts)))"
proof (intro conjI impI)
  assume b: "built_by_inserts N T"
  from built_by_inserts_inv[OF b] show "distinct_points N (kd_root T)" by simp
next
  assume b: "built_by_inserts N T" and st: "stored N (kd_root T) pt"
  from built_by_inserts_inv[OF b] have inv: "kd_invariant N (kd_root T)" by simp
  from loc_None_not_stored[OF inv, of pt] st have found: "loc N (kd_root T) pt \<noteq> None"
    by blast
  then have "kd_root T \<noteq> Null" by auto
  with found show "size_kd (insert_kd N T pt val) = size_kd T"
    by (simp add: size_kd_def kd_size_insert_kd contains_loc)
  from found show "points (kd_root (insert_kd N T pt val)) = points (kd_root T)"
    by (simp add: kd_root_insert_kd points_ins_found)
  show "at_kd N (insert_kd N T pt val) pt = Inr val"
    by (simp add: at_kd_loc kd_root_insert_kd loc_ins_same point_eq_refl)
next
  assume "nth_element_ok sel \<and> pairwise_distinct N (map fst pts)"
  then show "distinct_points N (kd_root (KDTree_bulk sel N pts))"
    by (simp add: distinct_points_bulk)
qed

text \<open>
  The theorem at the tree of two inserts, with the second point inserted again, and at
  the bulk construction from four distinct points.
\<close>

theorem no_equal_points_by_inserts_or_distinct_bulk_witness:
  "built_by_inserts 2 (insert_kd 2 (insert_kd 2 KDTree_empty [1, 2] ''a'') [0, 5] ''b'') \<and>
   stored 2 (kd_root (insert_kd 2 (insert_kd 2 KDTree_empty [1, 2] ''a'') [0, 5] ''b'')) [0, 5] \<and>
   distinct_points 2 (kd_root (insert_kd 2 (insert_kd 2 KDTree_empty [1, 2] ''a'') [0, 5] ''b'')) \<and>
   size_kd (insert_kd 2 (insert_kd 2 (insert_kd 2 KDTree_empty [1, 2] ''a'') [0, 5] ''b'') [0, 5] ''c'')
     = 2 \<and>
   at_kd 2 (insert_kd 2 (insert_kd 2 (insert_kd 2 KDTree_empty [1, 2] ''a'') [0, 5] ''b'') [0, 5] ''c'')
     [0, 5] = Inr ''c'' \<and>
   nth_element_ok (sel_keep :: string nth_element) \<and>
   pairwise_distinct 2 (map fst [([2, 0], ''a''), ([1, 0], ''b''), ([2, 1], ''c''), ([3, 0], ''d'')]) \<and>
   distinct_points 2 (kd_root (KDTree_bulk sel_keep 2
     [([2, 0], ''a''), ([1, 0], ''b''), ([2, 1], ''c''), ([3, 0], ''d'')]))"
proof -
  let ?T = "insert_kd 2 (insert_kd 2 KDTree_empty [1, 2] ''a'') [0, 5] ''b''"
  let ?V = "[([2, 0], ''a''), ([1, 0], ''b''), ([2, 1], ''c''), ([3, 0], ''d'')] :: string vec"
  have b: "built_by_inserts 2 ?T"
    by (intro built_insert built_empty)
  have st: "stored 2 (kd_root ?T) [0, 5]" by code_simp
  have sz: "size_kd ?T = 2" by code_simp
  have pd: "pairwise_distinct 2 (map fst ?V)" by code_simp
  have ok: "nth_element_ok (sel_keep :: string nth_element)" by (rule sel_keep_ok)
  from no_equal_points_by_inserts_or_distinct_bulk[of 2 ?T "[0, 5]" "''c''" sel_keep ?V]
    b st sz pd ok
  show ?thesis by simp
qed

section \<open>Copies\<close>

lemma rep_frame:
  "rep h a t \<Longrightarrow> (\<forall>x \<in> addrs h a t. h' x = h x) \<Longrightarrow> rep h' a t \<and> addrs h' a t = addrs h a t"
proof (induction t arbitrary: a)
  case Null
  then show ?case by simp
next
  case (Node p l r lv v)
  from Node.prems(1) obtain x nd where a: "a = Some x" and hx: "h x = Some nd"
    by (auto split: option.splits)
  from Node.prems(2) a hx have h'x: "h' x = Some nd" by simp
  from Node.prems a hx have
    l: "rep h (left_f nd) l" "\<forall>y \<in> addrs h (left_f nd) l. h' y = h y" and
    r: "rep h (right_f nd) r" "\<forall>y \<in> addrs h (right_f nd) r. h' y = h y"
    by auto
  from Node.IH(1)[OF l] Node.IH(2)[OF r] Node.prems(1) a hx h'x
  show ?case by simp
qed

lemma addrs_allocated: "rep h a t \<Longrightarrow> x \<in> addrs h a t \<Longrightarrow> h x \<noteq> None"
proof (induction t arbitrary: a)
  case Null
  then show ?case by simp
next
  case (Node p l r lv v)
  then show ?case by (auto split: option.splits)
qed

lemma addrs_below_next:
  "heap_ok m \<Longrightarrow> rep (nodes m) a t \<Longrightarrow> x \<in> addrs (nodes m) a t \<Longrightarrow> x < next_addr m"
  using addrs_allocated[of "nodes m" a t x] unfolding heap_ok_def
  by (meson not_le)

lemma deepcopyTree_correct:
  "heap_ok m \<Longrightarrow> rep (nodes m) a t \<Longrightarrow>
   \<exists>a' m'. deepcopyTree m a = Some (a', m') \<and> rep (nodes m') a' t \<and>
      (\<forall>x \<in> addrs (nodes m') a' t. next_addr m \<le> x \<and> x < next_addr m') \<and>
      (\<forall>x < next_addr m. nodes m' x = nodes m x) \<and> heap_ok m' \<and> trees m' = trees m \<and>
      next_addr m \<le> next_addr m'"
proof (induction t arbitrary: m a)
  case Null
  then have "deepcopyTree m a = Some (None, m)"
    by (subst deepcopyTree.simps) simp
  with Null show ?case by simp
next
  case (Node p l r lv v)
  from Node.prems(2) obtain x nd where a: "a = Some x" and hx: "nodes m x = Some nd"
    by (auto split: option.splits)
  from Node.prems(2) a hx have nd: "point_f nd = p" "level_f nd = lv" "value_f nd = v"
    and rl: "rep (nodes m) (left_f nd) l" and rr: "rep (nodes m) (right_f nd) r"
    by auto
  define n where "n = next_addr m"
  define m1 where "m1 = m\<lparr>nodes := (nodes m)(n \<mapsto> nd), next_addr := n + 1\<rparr>"
  have nn: "new_node m nd = (n, m1)" by (simp add: new_node_def n_def m1_def)
  have xn: "x < n"
  proof (rule ccontr)
    assume "\<not> x < n"
    then have "nodes m x = None" using Node.prems(1) by (simp add: heap_ok_def n_def)
    with hx show False by simp
  qed
  have m1x: "nodes m1 x = Some nd" using xn hx by (simp add: m1_def)
  have ok1: "heap_ok m1" using Node.prems(1) by (simp add: heap_ok_def m1_def n_def)
  have old1: "\<forall>y < n. nodes m1 y = nodes m y" by (simp add: m1_def)
  have rl1: "rep (nodes m1) (left_f nd) l"
    using rep_frame[OF rl, of "nodes m1"] addrs_below_next[OF Node.prems(1) rl] old1
    by (simp add: n_def)
  from Node.IH(1)[OF ok1 rl1] obtain l' m2 where
    dl: "deepcopyTree m1 (left_f nd) = Some (l', m2)" and rl2: "rep (nodes m2) l' l" and
    al2: "\<forall>y \<in> addrs (nodes m2) l' l. next_addr m1 \<le> y \<and> y < next_addr m2" and
    old2: "\<forall>y < next_addr m1. nodes m2 y = nodes m1 y" and ok2: "heap_ok m2" and
    t2: "trees m2 = trees m1" and n2: "next_addr m1 \<le> next_addr m2"
    by blast
  have nm1: "next_addr m1 = n + 1" by (simp add: m1_def)
  define m3 where "m3 = m2\<lparr>nodes := (nodes m2)(n \<mapsto> nd\<lparr>left_f := l'\<rparr>)\<rparr>"
  have m2n: "nodes m2 n = Some nd" using old2 nm1 by (simp add: m1_def)
  have sl: "set_left m2 n l' = Some m3" by (simp add: set_left_def m2n m3_def)
  have m3x: "nodes m3 x = Some nd" using xn old2 nm1 m1x by (simp add: m3_def)
  have ok3: "heap_ok m3" using ok2 n2 nm1 by (simp add: heap_ok_def m3_def)
  have old3: "\<forall>y < n. nodes m3 y = nodes m y" using old2 old1 nm1 by (simp add: m3_def)
  have nm3: "next_addr m3 = next_addr m2" by (simp add: m3_def)
  have rr3: "rep (nodes m3) (right_f nd) r"
    using rep_frame[OF rr, of "nodes m3"] addrs_below_next[OF Node.prems(1) rr] old3
    by (simp add: n_def)
  from Node.IH(2)[OF ok3 rr3] obtain r' m4 where
    dr: "deepcopyTree m3 (right_f nd) = Some (r', m4)" and rr4: "rep (nodes m4) r' r" and
    ar4: "\<forall>y \<in> addrs (nodes m4) r' r. next_addr m3 \<le> y \<and> y < next_addr m4" and
    old4: "\<forall>y < next_addr m3. nodes m4 y = nodes m3 y" and ok4: "heap_ok m4" and
    t4: "trees m4 = trees m3" and n4: "next_addr m3 \<le> next_addr m4"
    by blast
  define nd5 where "nd5 = nd\<lparr>left_f := l', right_f := r'\<rparr>"
  define m5 where "m5 = m4\<lparr>nodes := (nodes m4)(n \<mapsto> nd5)\<rparr>"
  have m4n: "nodes m4 n = Some (nd\<lparr>left_f := l'\<rparr>)"
    using old4 nm3 n2 nm1 by (simp add: m3_def)
  have sr: "set_right m4 n r' = Some m5" by (simp add: set_right_def m4n m5_def nd5_def)
  have res: "deepcopyTree m (Some x) = Some (Some n, m5)"
    by (subst deepcopyTree.simps) (simp add: hx nn m1x dl sl m3x dr sr)
  have m5n: "nodes m5 n = Some nd5" by (simp add: m5_def)
  have agree_l: "\<forall>y \<in> addrs (nodes m2) l' l. nodes m5 y = nodes m2 y"
  proof
    fix y assume "y \<in> addrs (nodes m2) l' l"
    with al2 nm1 have y: "n < y" "y < next_addr m2" by auto
    then have "nodes m5 y = nodes m4 y" by (simp add: m5_def)
    also have "\<dots> = nodes m3 y" using old4 y nm3 by simp
    also have "\<dots> = nodes m2 y" using y by (simp add: m3_def)
    finally show "nodes m5 y = nodes m2 y" .
  qed
  have agree_r: "\<forall>y \<in> addrs (nodes m4) r' r. nodes m5 y = nodes m4 y"
  proof
    fix y assume "y \<in> addrs (nodes m4) r' r"
    with ar4 nm3 n2 nm1 have "n < y" by auto
    then show "nodes m5 y = nodes m4 y" by (simp add: m5_def)
  qed
  from rep_frame[OF rl2 agree_l] have rl5: "rep (nodes m5) l' l"
    and al5: "addrs (nodes m5) l' l = addrs (nodes m2) l' l" by simp_all
  from rep_frame[OF rr4 agree_r] have rr5: "rep (nodes m5) r' r"
    and ar5: "addrs (nodes m5) r' r = addrs (nodes m4) r' r" by simp_all
  have bl: "\<forall>y \<in> addrs (nodes m5) l' l. n < y \<and> y < next_addr m2"
    using al2 nm1 al5 by auto
  have br: "\<forall>y \<in> addrs (nodes m5) r' r. next_addr m2 \<le> y \<and> y < next_addr m4"
    using ar4 nm3 ar5 by auto
  have disj: "n \<notin> addrs (nodes m5) l' l" "n \<notin> addrs (nodes m5) r' r"
    "addrs (nodes m5) l' l \<inter> addrs (nodes m5) r' r = {}"
    using bl br n2 nm1 by fastforce+
  have rep5: "rep (nodes m5) (Some n) (Node p l r lv v)"
    using m5n nd rl5 rr5 disj by (simp add: nd5_def)
  have nm5: "next_addr m5 = next_addr m4" by (simp add: m5_def)
  have a5: "\<forall>y \<in> addrs (nodes m5) (Some n) (Node p l r lv v). next_addr m \<le> y \<and> y < next_addr m5"
    using m5n bl br n2 n4 nm1 nm3 nm5 by (auto simp: nd5_def n_def)
  have old5: "\<forall>y < next_addr m. nodes m5 y = nodes m y"
  proof (intro allI impI)
    fix y assume y: "y < next_addr m"
    then have "nodes m5 y = nodes m4 y" by (simp add: m5_def n_def)
    also have "\<dots> = nodes m3 y" using old4 y nm3 n2 nm1 by (simp add: n_def)
    also have "\<dots> = nodes m y" using old3 y by (simp add: n_def)
    finally show "nodes m5 y = nodes m y" .
  qed
  have ok5: "heap_ok m5" using ok4 n4 nm3 n2 nm1 by (simp add: heap_ok_def m5_def)
  have t5: "trees m5 = trees m" using t4 t2 by (simp add: m5_def m3_def m1_def)
  have n5: "next_addr m \<le> next_addr m5" using nm5 n4 nm3 n2 nm1 by (simp add: n_def)
  show ?case
    unfolding a res using rep5 a5 old5 ok5 t5 n5 by blast
qed


lemma freeResource_correct:
  "rep (nodes m) a t \<Longrightarrow>
   \<exists>m'. freeResource m a = Some m' \<and>
      (\<forall>x. nodes m' x = (if x \<in> addrs (nodes m) a t then None else nodes m x)) \<and>
      next_addr m' = next_addr m \<and> trees m' = trees m"
proof (induction t arbitrary: m a)
  case Null
  then have "freeResource m a = Some m"
    by (subst freeResource.simps) simp
  with Null show ?case by simp
next
  case (Node p l r lv v)
  from Node.prems obtain x nd where a: "a = Some x" and hx: "nodes m x = Some nd"
    by (auto split: option.splits)
  let ?AL = "addrs (nodes m) (left_f nd) l" and ?AR = "addrs (nodes m) (right_f nd) r"
  from Node.prems a hx have rl: "rep (nodes m) (left_f nd) l" and rr: "rep (nodes m) (right_f nd) r"
    and d: "x \<notin> ?AL" "x \<notin> ?AR" "?AL \<inter> ?AR = {}"
    by auto
  from Node.IH(1)[OF rl] obtain m1 where
    f1: "freeResource m (left_f nd) = Some m1" and
    h1: "\<forall>y. nodes m1 y = (if y \<in> ?AL then None else nodes m y)" and
    o1: "next_addr m1 = next_addr m" "trees m1 = trees m"
    by blast
  have m1x: "nodes m1 x = Some nd" using h1 d hx by simp
  have "\<forall>y \<in> ?AR. nodes m1 y = nodes m y" using h1 d by auto
  from rep_frame[OF rr this] have rr1: "rep (nodes m1) (right_f nd) r"
    and ar1: "addrs (nodes m1) (right_f nd) r = ?AR" by simp_all
  from Node.IH(2)[OF rr1] obtain m2 where
    f2: "freeResource m1 (right_f nd) = Some m2" and
    h2: "\<forall>y. nodes m2 y = (if y \<in> ?AR then None else nodes m1 y)" and
    o2: "next_addr m2 = next_addr m1" "trees m2 = trees m1"
    unfolding ar1 by blast
  have m2x: "nodes m2 x = Some nd" using h2 d m1x by simp
  have res: "freeResource m (Some x) = Some (m2\<lparr>nodes := (nodes m2)(x := None)\<rparr>)"
    by (subst freeResource.simps) (simp add: hx f1 m1x f2 m2x)
  show ?case
    unfolding a res using h1 h2 o1 o2 hx by auto
qed

lemma rep_Node_left:
  assumes "h' x0 = Some nd0" "left_f nd0 = a'" "right_f nd0 = b"
    and "point_f nd0 = p" "level_f nd0 = lv" "value_f nd0 = v"
    and "rep h' a' l'" "rep h b r" "\<forall>y \<in> addrs h b r. h' y = h y"
    and "x0 \<notin> addrs h' a' l'" "x0 \<notin> addrs h b r" "addrs h' a' l' \<inter> addrs h b r = {}"
  shows "rep h' (Some x0) (Node p l' r lv v) \<and>
         addrs h' (Some x0) (Node p l' r lv v) = insert x0 (addrs h' a' l' \<union> addrs h b r)"
  using assms rep_frame[of h b r h'] by simp

lemma rep_Node_right:
  assumes "h' x0 = Some nd0" "left_f nd0 = a'" "right_f nd0 = b"
    and "point_f nd0 = p" "level_f nd0 = lv" "value_f nd0 = v"
    and "rep h a' l" "rep h' b r'" "\<forall>y \<in> addrs h a' l. h' y = h y"
    and "x0 \<notin> addrs h a' l" "x0 \<notin> addrs h' b r'" "addrs h a' l \<inter> addrs h' b r' = {}"
  shows "rep h' (Some x0) (Node p l r' lv v) \<and>
         addrs h' (Some x0) (Node p l r' lv v) = insert x0 (addrs h a' l \<union> addrs h' b r')"
  using assms rep_frame[of h a' l h'] by simp

lemma found_ok_here:
  assumes r: "rep h (Some x) (Node p l r lv v)" and hx: "h x = Some nd"
    and stop: "point_eq N p pt \<or>
       (if pt ! (lv mod N) < p ! (lv mod N) then l = Null else r = Null)"
  shows "found_ok N h (Some x) (Node p l r lv v) pt x nd"
proof -
  let ?AL = "addrs h (left_f nd) l" and ?AR = "addrs h (right_f nd) r"
  from r hx have nd: "point_f nd = p" "level_f nd = lv" "value_f nd = v"
    and rl: "rep h (left_f nd) l" and rr: "rep h (right_f nd) r"
    and d: "x \<notin> ?AL" "x \<notin> ?AR" "?AL \<inter> ?AR = {}"
    by auto
  have A: "addrs h (Some x) (Node p l r lv v) = insert x (?AL \<union> ?AR)"
    using hx by simp
  show ?thesis
  proof (cases "point_eq N p pt")
    case True
    have "rep (h(x \<mapsto> nd\<lparr>value_f := val\<rparr>)) (Some x) (Node p l r lv val) \<and>
          addrs (h(x \<mapsto> nd\<lparr>value_f := val\<rparr>)) (Some x) (Node p l r lv val) = insert x (?AL \<union> ?AR)"
      for val
    proof -
      let ?h' = "h(x \<mapsto> nd\<lparr>value_f := val\<rparr>)"
      have fl: "\<forall>y \<in> ?AL. ?h' y = h y" and fr: "\<forall>y \<in> ?AR. ?h' y = h y" using d by auto
      from rep_frame[of h _ _ ?h', OF rl fl] rep_frame[of h _ _ ?h', OF rr fr] nd d show ?thesis by simp
    qed
    with True nd hx A show ?thesis by (simp add: found_ok_def)
  next
    case ne: False
    show ?thesis
    proof (cases "pt ! (lv mod N) < p ! (lv mod N)")
      case lt: True
      with stop ne have lN: "l = Null" by simp
      with rl have lf: "left_f nd = None" by simp
      have "rep (h(y \<mapsto> leaf_obj pt (lv + 1) val, x \<mapsto> attach N nd pt y)) (Some x)
              (Node p (Node pt Null Null (lv + 1) val) r lv v) \<and>
            addrs (h(y \<mapsto> leaf_obj pt (lv + 1) val, x \<mapsto> attach N nd pt y)) (Some x)
              (Node p (Node pt Null Null (lv + 1) val) r lv v) = insert y (insert x ?AR)"
        if y: "y \<noteq> x" "y \<notin> ?AR" for y val
      proof -
        let ?h' = "h(y \<mapsto> leaf_obj pt (lv + 1) val, x \<mapsto> attach N nd pt y)"
        have fr: "\<forall>z \<in> ?AR. ?h' z = h z" using d y by auto
        from rep_frame[of h _ _ ?h', OF rr fr] have rr': "rep ?h' (right_f nd) r"
          and ar': "addrs ?h' (right_f nd) r = ?AR" by simp_all
        have at: "attach N nd pt y = nd\<lparr>left_f := Some y\<rparr>" using lt nd by (simp add: attach_def)
        have hy: "?h' y = Some (leaf_obj pt (lv + 1) val)" using y by simp
        show ?thesis
          using y d nd rr' ar' hy by (auto simp: at leaf_obj_def)
      qed
      with ne lt nd hx A lN lf show ?thesis by (simp add: found_ok_def)
    next
      case ge: False
      with stop ne have rN: "r = Null" by simp
      with rr have rf: "right_f nd = None" by simp
      have "rep (h(y \<mapsto> leaf_obj pt (lv + 1) val, x \<mapsto> attach N nd pt y)) (Some x)
              (Node p l (Node pt Null Null (lv + 1) val) lv v) \<and>
            addrs (h(y \<mapsto> leaf_obj pt (lv + 1) val, x \<mapsto> attach N nd pt y)) (Some x)
              (Node p l (Node pt Null Null (lv + 1) val) lv v) = insert y (insert x ?AL)"
        if y: "y \<noteq> x" "y \<notin> ?AL" for y val
      proof -
        let ?h' = "h(y \<mapsto> leaf_obj pt (lv + 1) val, x \<mapsto> attach N nd pt y)"
        have fl: "\<forall>z \<in> ?AL. ?h' z = h z" using d y by auto
        from rep_frame[of h _ _ ?h', OF rl fl] have rl': "rep ?h' (left_f nd) l"
          and al': "addrs ?h' (left_f nd) l = ?AL" by simp_all
        have at: "attach N nd pt y = nd\<lparr>right_f := Some y\<rparr>" using ge nd by (simp add: attach_def)
        have hy: "?h' y = Some (leaf_obj pt (lv + 1) val)" using y by simp
        show ?thesis
          using y d nd rl' al' hy by (auto simp: at leaf_obj_def)
      qed
      with ne ge nd hx A rN rf show ?thesis by (simp add: found_ok_def)
    qed
  qed
qed


lemma found_ok_left:
  assumes r: "rep h (Some x0) (Node p l r lv v)" and hx0: "h x0 = Some nd0"
    and ne: "\<not> point_eq N p pt" and lt: "pt ! (lv mod N) < p ! (lv mod N)" and lne: "l \<noteq> Null"
    and sub: "found_ok N h (left_f nd0) l pt x nd"
  shows "found_ok N h (Some x0) (Node p l r lv v) pt x nd"
proof -
  let ?AL = "addrs h (left_f nd0) l" and ?AR = "addrs h (right_f nd0) r"
  from r hx0 have nd0: "point_f nd0 = p" "level_f nd0 = lv" "value_f nd0 = v"
    and rr: "rep h (right_f nd0) r"
    and d: "x0 \<notin> ?AL" "x0 \<notin> ?AR" "?AL \<inter> ?AR = {}"
    by auto
  from sub have hx: "h x = Some nd" and xin: "x \<in> ?AL" by (simp_all add: found_ok_def)
  from xin d have x: "x \<noteq> x0" "x \<notin> ?AR" by auto
  have A: "addrs h (Some x0) (Node p l r lv v) = insert x0 (?AL \<union> ?AR)"
    using hx0 by simp
  have I: "ins N (Node p l r lv v) pt val = Node p (ins N l pt val) r lv v" for val
    using ne lt lne by simp
  have Lc: "loc N (Node p l r lv v) pt = loc N l pt" using ne lt by simp
  show ?thesis
  proof (cases "point_eq N (point_f nd) pt")
    case True
    with sub have lo: "loc N l pt = Some (value_f nd)"
      and s: "\<And>val. rep (h(x \<mapsto> nd\<lparr>value_f := val\<rparr>)) (left_f nd0) (ins N l pt val) \<and>
               addrs (h(x \<mapsto> nd\<lparr>value_f := val\<rparr>)) (left_f nd0) (ins N l pt val) = ?AL"
      by (simp_all add: found_ok_def)
    have "rep (h(x \<mapsto> nd\<lparr>value_f := val\<rparr>)) (Some x0) (Node p (ins N l pt val) r lv v) \<and>
          addrs (h(x \<mapsto> nd\<lparr>value_f := val\<rparr>)) (Some x0) (Node p (ins N l pt val) r lv v)
            = insert x0 (?AL \<union> ?AR)" for val
    proof -
      let ?h' = "h(x \<mapsto> nd\<lparr>value_f := val\<rparr>)"
      have 1: "?h' x0 = Some nd0" using x hx0 by simp
      have 2: "\<forall>y \<in> ?AR. ?h' y = h y" using x by auto
      from rep_Node_left[of ?h' x0 nd0 "left_f nd0" "right_f nd0" p lv v "ins N l pt val" h r,
          OF 1 refl refl nd0 _ rr 2] s[of val] d
      show ?thesis by simp
    qed
    with True lo hx xin A I Lc show ?thesis by (simp add: found_ok_def)
  next
    case False
    with sub have lo: "loc N l pt = None"
      and s: "\<And>y val. y \<notin> ?AL \<Longrightarrow>
               rep (h(y \<mapsto> leaf_obj pt (level_f nd + 1) val, x \<mapsto> attach N nd pt y)) (left_f nd0)
                 (ins N l pt val) \<and>
               addrs (h(y \<mapsto> leaf_obj pt (level_f nd + 1) val, x \<mapsto> attach N nd pt y)) (left_f nd0)
                 (ins N l pt val) = insert y ?AL"
      by (simp_all add: found_ok_def)
    have "rep (h(y \<mapsto> leaf_obj pt (level_f nd + 1) val, x \<mapsto> attach N nd pt y)) (Some x0)
            (Node p (ins N l pt val) r lv v) \<and>
          addrs (h(y \<mapsto> leaf_obj pt (level_f nd + 1) val, x \<mapsto> attach N nd pt y)) (Some x0)
            (Node p (ins N l pt val) r lv v) = insert y (insert x0 (?AL \<union> ?AR))"
      if y: "y \<noteq> x0" "y \<notin> ?AL" "y \<notin> ?AR" for y val
    proof -
      let ?h' = "h(y \<mapsto> leaf_obj pt (level_f nd + 1) val, x \<mapsto> attach N nd pt y)"
      have 1: "?h' x0 = Some nd0" using x y hx0 by simp
      have 2: "\<forall>z \<in> ?AR. ?h' z = h z" using x y by auto
      from rep_Node_left[of ?h' x0 nd0 "left_f nd0" "right_f nd0" p lv v "ins N l pt val" h r,
          OF 1 refl refl nd0 _ rr 2] s[OF y(2), of val] d y
      show ?thesis by auto
    qed
    with False lo hx xin A I Lc show ?thesis by (simp add: found_ok_def)
  qed
qed

lemma found_ok_right:
  assumes r: "rep h (Some x0) (Node p l r lv v)" and hx0: "h x0 = Some nd0"
    and ne: "\<not> point_eq N p pt" and ge: "\<not> pt ! (lv mod N) < p ! (lv mod N)" and rne: "r \<noteq> Null"
    and sub: "found_ok N h (right_f nd0) r pt x nd"
  shows "found_ok N h (Some x0) (Node p l r lv v) pt x nd"
proof -
  let ?AL = "addrs h (left_f nd0) l" and ?AR = "addrs h (right_f nd0) r"
  from r hx0 have nd0: "point_f nd0 = p" "level_f nd0 = lv" "value_f nd0 = v"
    and rl: "rep h (left_f nd0) l"
    and d: "x0 \<notin> ?AL" "x0 \<notin> ?AR" "?AL \<inter> ?AR = {}"
    by auto
  from sub have hx: "h x = Some nd" and xin: "x \<in> ?AR" by (simp_all add: found_ok_def)
  from xin d have x: "x \<noteq> x0" "x \<notin> ?AL" by auto
  have A: "addrs h (Some x0) (Node p l r lv v) = insert x0 (?AL \<union> ?AR)"
    using hx0 by simp
  have I: "ins N (Node p l r lv v) pt val = Node p l (ins N r pt val) lv v" for val
    using ne ge rne by simp
  have Lc: "loc N (Node p l r lv v) pt = loc N r pt" using ne ge by simp
  show ?thesis
  proof (cases "point_eq N (point_f nd) pt")
    case True
    with sub have lo: "loc N r pt = Some (value_f nd)"
      and s: "\<And>val. rep (h(x \<mapsto> nd\<lparr>value_f := val\<rparr>)) (right_f nd0) (ins N r pt val) \<and>
               addrs (h(x \<mapsto> nd\<lparr>value_f := val\<rparr>)) (right_f nd0) (ins N r pt val) = ?AR"
      by (simp_all add: found_ok_def)
    have "rep (h(x \<mapsto> nd\<lparr>value_f := val\<rparr>)) (Some x0) (Node p l (ins N r pt val) lv v) \<and>
          addrs (h(x \<mapsto> nd\<lparr>value_f := val\<rparr>)) (Some x0) (Node p l (ins N r pt val) lv v)
            = insert x0 (?AL \<union> ?AR)" for val
    proof -
      let ?h' = "h(x \<mapsto> nd\<lparr>value_f := val\<rparr>)"
      have 1: "?h' x0 = Some nd0" using x hx0 by simp
      have 2: "\<forall>y \<in> ?AL. ?h' y = h y" using x by auto
      from rep_Node_right[of ?h' x0 nd0 "left_f nd0" "right_f nd0" p lv v h l "ins N r pt val",
          OF 1 refl refl nd0 rl _ 2] s[of val] d
      show ?thesis by simp
    qed
    with True lo hx xin A I Lc show ?thesis by (simp add: found_ok_def)
  next
    case False
    with sub have lo: "loc N r pt = None"
      and s: "\<And>y val. y \<notin> ?AR \<Longrightarrow>
               rep (h(y \<mapsto> leaf_obj pt (level_f nd + 1) val, x \<mapsto> attach N nd pt y)) (right_f nd0)
                 (ins N r pt val) \<and>
               addrs (h(y \<mapsto> leaf_obj pt (level_f nd + 1) val, x \<mapsto> attach N nd pt y)) (right_f nd0)
                 (ins N r pt val) = insert y ?AR"
      by (simp_all add: found_ok_def)
    have "rep (h(y \<mapsto> leaf_obj pt (level_f nd + 1) val, x \<mapsto> attach N nd pt y)) (Some x0)
            (Node p l (ins N r pt val) lv v) \<and>
          addrs (h(y \<mapsto> leaf_obj pt (level_f nd + 1) val, x \<mapsto> attach N nd pt y)) (Some x0)
            (Node p l (ins N r pt val) lv v) = insert y (insert x0 (?AL \<union> ?AR))"
      if y: "y \<noteq> x0" "y \<notin> ?AL" "y \<notin> ?AR" for y val
    proof -
      let ?h' = "h(y \<mapsto> leaf_obj pt (level_f nd + 1) val, x \<mapsto> attach N nd pt y)"
      have 1: "?h' x0 = Some nd0" using x y hx0 by simp
      have 2: "\<forall>z \<in> ?AL. ?h' z = h z" using x y by auto
      from rep_Node_right[of ?h' x0 nd0 "left_f nd0" "right_f nd0" p lv v h l "ins N r pt val",
          OF 1 refl refl nd0 rl _ 2] s[OF y(3), of val] d y
      show ?thesis by auto
    qed
    with False lo hx xin A I Lc show ?thesis by (simp add: found_ok_def)
  qed
qed

lemma findNode_h_correct:
  "rep (nodes m) a t \<Longrightarrow> t \<noteq> Null \<Longrightarrow>
   \<exists>x nd. findNode_h N m a pt = Some (Some x) \<and> found_ok N (nodes m) a t pt x nd"
proof (induction t arbitrary: a)
  case Null
  then show ?case by simp
next
  case (Node p l r lv v)
  from Node.prems(1) obtain x0 nd0 where a: "a = Some x0" and hx0: "nodes m x0 = Some nd0"
    by (auto split: option.splits)
  from Node.prems(1) a hx0 have nd0: "point_f nd0 = p" "level_f nd0 = lv"
    and rl: "rep (nodes m) (left_f nd0) l" and rr: "rep (nodes m) (right_f nd0) r"
    by auto
  have lN: "left_f nd0 = None \<longleftrightarrow> l = Null" using rl by (cases l) (auto split: option.splits)
  have rN: "right_f nd0 = None \<longleftrightarrow> r = Null" using rr by (cases r) (auto split: option.splits)
  show ?case
  proof (cases "point_eq N p pt \<or> (if pt ! (lv mod N) < p ! (lv mod N) then l = Null else r = Null)")
    case True
    then have "findNode_h N m (Some x0) pt = Some (Some x0)"
      using hx0 nd0 lN rN by (subst findNode_h.simps) auto
    moreover have "found_ok N (nodes m) (Some x0) (Node p l r lv v) pt x0 nd0"
      using Node.prems(1) hx0 True unfolding a by (rule found_ok_here)
    ultimately show ?thesis unfolding a by blast
  next
    case False
    then have ne: "\<not> point_eq N p pt" by simp
    show ?thesis
    proof (cases "pt ! (lv mod N) < p ! (lv mod N)")
      case lt: True
      with False have lne: "l \<noteq> Null" by simp
      from Node.IH(1)[OF rl lne] obtain x nd where
        f: "findNode_h N m (left_f nd0) pt = Some (Some x)" and
        ok: "found_ok N (nodes m) (left_f nd0) l pt x nd" by blast
      have "findNode_h N m (Some x0) pt = Some (Some x)"
        using hx0 nd0 ne lt lne lN f by (subst findNode_h.simps) auto
      moreover have "found_ok N (nodes m) (Some x0) (Node p l r lv v) pt x nd"
        using Node.prems(1) hx0 ne lt lne ok unfolding a by (rule found_ok_left)
      ultimately show ?thesis unfolding a by blast
    next
      case ge: False
      with False have rne: "r \<noteq> Null" by simp
      from Node.IH(2)[OF rr rne] obtain x nd where
        f: "findNode_h N m (right_f nd0) pt = Some (Some x)" and
        ok: "found_ok N (nodes m) (right_f nd0) r pt x nd" by blast
      have "findNode_h N m (Some x0) pt = Some (Some x)"
        using hx0 nd0 ne ge rne rN f by (subst findNode_h.simps) auto
      moreover have "found_ok N (nodes m) (Some x0) (Node p l r lv v) pt x nd"
        using Node.prems(1) hx0 ne ge rne ok unfolding a by (rule found_ok_right)
      ultimately show ?thesis unfolding a by blast
    qed
  qed
qed


lemma findNode_h_Null: "findNode_h N m None pt = Some None"
  by (subst findNode_h.simps) simp

lemma insert_h_correct:
  assumes ok: "heap_ok m" and hd: "holds m T K"
  shows "\<exists>m'. insert_h N m T pt val = Some m' \<and> holds m' T (insert_kd N K pt val) \<and> heap_ok m' \<and>
      footprint m' T (insert_kd N K pt val) \<subseteq> insert (next_addr m) (footprint m T K) \<and>
      (\<forall>x. x \<notin> footprint m T K \<and> x < next_addr m \<longrightarrow> nodes m' x = nodes m x) \<and>
      (\<forall>B. B \<noteq> T \<longrightarrow> trees m' B = trees m B) \<and> next_addr m \<le> next_addr m'"
proof -
  from hd obtain obj where tT: "trees m T = Some obj"
    and r: "rep (nodes m) (root_f obj) (kd_root K)" and sz: "size_f obj = kd_size K"
    by (auto simp: holds_def split: option.splits)
  have fp: "footprint m T K = addrs (nodes m) (root_f obj) (kd_root K)"
    by (simp add: footprint_def tT)
  define n where "n = next_addr m"
  show ?thesis
  proof (cases "kd_root K = Null")
    case True
    with r have rt: "root_f obj = None" by simp
    define m' where "m' = m\<lparr>nodes := (nodes m)(n \<mapsto> leaf_obj pt 0 val), next_addr := n + 1,
      trees := (trees m)(T \<mapsto> \<lparr>root_f = Some n, size_f = 1\<rparr>)\<rparr>"
    have res: "insert_h N m T pt val = Some m'"
      by (simp add: insert_h_def tT rt findNode_h_Null new_node_def m'_def n_def leaf_obj_def)
    have K': "kd_root (insert_kd N K pt val) = Node pt Null Null 0 val"
      "kd_size (insert_kd N K pt val) = 1"
      using True by (simp_all add: kd_root_insert_kd kd_size_insert_kd)
    have "holds m' T (insert_kd N K pt val)"
      by (simp add: holds_def m'_def K' leaf_obj_def)
    moreover have "heap_ok m'" using ok by (simp add: heap_ok_def m'_def n_def)
    moreover have "footprint m' T (insert_kd N K pt val) \<subseteq> insert (next_addr m) (footprint m T K)"
      by (simp add: footprint_def m'_def K' leaf_obj_def n_def)
    moreover have "\<forall>x. x \<notin> footprint m T K \<and> x < next_addr m \<longrightarrow> nodes m' x = nodes m x"
      by (simp add: m'_def n_def)
    moreover have "\<forall>B. B \<noteq> T \<longrightarrow> trees m' B = trees m B" by (simp add: m'_def)
    moreover have "next_addr m \<le> next_addr m'" by (simp add: m'_def n_def)
    ultimately show ?thesis using res by blast
  next
    case False
    from findNode_h_correct[OF r False, of N pt] obtain x nd where
      f: "findNode_h N m (root_f obj) pt = Some (Some x)" and
      fo: "found_ok N (nodes m) (root_f obj) (kd_root K) pt x nd" by blast
    from fo have hx: "nodes m x = Some nd" and xin: "x \<in> addrs (nodes m) (root_f obj) (kd_root K)"
      by (simp_all add: found_ok_def)
    have xn: "x < n" using addrs_below_next[OF ok r xin] by (simp add: n_def)
    have nfresh: "n \<notin> addrs (nodes m) (root_f obj) (kd_root K)"
      using addrs_below_next[OF ok r, of n] by (auto simp: n_def)
    show ?thesis
    proof (cases "point_eq N (point_f nd) pt")
      case True
      define m' where "m' = m\<lparr>nodes := (nodes m)(x \<mapsto> nd\<lparr>value_f := val\<rparr>)\<rparr>"
      have res: "insert_h N m T pt val = Some m'"
        by (simp add: insert_h_def tT f hx True set_value_def m'_def)
      from fo True have lo: "loc N (kd_root K) pt = Some (value_f nd)"
        and rp: "rep (nodes m') (root_f obj) (ins N (kd_root K) pt val)"
        and ad: "addrs (nodes m') (root_f obj) (ins N (kd_root K) pt val)
                   = addrs (nodes m) (root_f obj) (kd_root K)"
        by (simp_all add: found_ok_def m'_def)
      have ks: "kd_size (insert_kd N K pt val) = kd_size K"
        using False lo by (simp add: kd_size_insert_kd contains_loc)
      have "holds m' T (insert_kd N K pt val)"
        using rp sz ks tT by (simp add: holds_def kd_root_insert_kd m'_def)
      moreover have "heap_ok m'" using ok xn by (auto simp: heap_ok_def m'_def n_def)
      moreover have "footprint m' T (insert_kd N K pt val) \<subseteq> insert (next_addr m) (footprint m T K)"
        using ad tT by (auto simp: footprint_def kd_root_insert_kd m'_def)
      moreover have "\<forall>y. y \<notin> footprint m T K \<and> y < next_addr m \<longrightarrow> nodes m' y = nodes m y"
        using xin fp by (auto simp: m'_def)
      moreover have "\<forall>B. B \<noteq> T \<longrightarrow> trees m' B = trees m B" by (simp add: m'_def)
      moreover have "next_addr m \<le> next_addr m'" by (simp add: m'_def)
      ultimately show ?thesis using res by blast
    next
      case ne: False
      define m' where "m' = m\<lparr>nodes := (nodes m)(n \<mapsto> leaf_obj pt (level_f nd + 1) val,
          x \<mapsto> attach N nd pt n), next_addr := n + 1,
          trees := (trees m)(T \<mapsto> obj\<lparr>size_f := size_f obj + 1\<rparr>)\<rparr>"
      have res: "insert_h N m T pt val = Some m'"
        using xn
        by (simp add: insert_h_def tT f hx ne new_node_def set_left_def set_right_def
            m'_def n_def leaf_obj_def attach_def)
      from fo ne nfresh have lo: "loc N (kd_root K) pt = None"
        and rp: "rep (nodes m') (root_f obj) (ins N (kd_root K) pt val)"
        and ad: "addrs (nodes m') (root_f obj) (ins N (kd_root K) pt val)
                   = insert n (addrs (nodes m) (root_f obj) (kd_root K))"
        by (simp_all add: found_ok_def m'_def)
      have ks: "kd_size (insert_kd N K pt val) = kd_size K + 1"
        using False lo by (simp add: kd_size_insert_kd contains_loc)
      have "holds m' T (insert_kd N K pt val)"
        using rp sz ks by (simp add: holds_def kd_root_insert_kd m'_def)
      moreover have "heap_ok m'" using ok xn by (auto simp: heap_ok_def m'_def n_def)
      moreover have "footprint m' T (insert_kd N K pt val) \<subseteq> insert (next_addr m) (footprint m T K)"
        using ad tT by (auto simp: footprint_def kd_root_insert_kd m'_def n_def)
      moreover have "\<forall>y. y \<notin> footprint m T K \<and> y < next_addr m \<longrightarrow> nodes m' y = nodes m y"
        using xin fp by (auto simp: m'_def n_def)
      moreover have "\<forall>B. B \<noteq> T \<longrightarrow> trees m' B = trees m B" by (simp add: m'_def)
      moreover have "next_addr m \<le> next_addr m'" by (simp add: m'_def n_def)
      ultimately show ?thesis using res by blast
    qed
  qed
qed

lemma at_h_correct:
  assumes hd: "holds m T K"
  shows "at_h N m T pt = Some (at_kd N K pt)"
proof -
  from hd obtain obj where tT: "trees m T = Some obj"
    and r: "rep (nodes m) (root_f obj) (kd_root K)"
    by (auto simp: holds_def split: option.splits)
  show ?thesis
  proof (cases "kd_root K = Null")
    case True
    with r have "root_f obj = None" by simp
    with True show ?thesis
      by (simp add: at_h_def tT findNode_h_Null at_kd_loc)
  next
    case False
    from findNode_h_correct[OF r False, of N pt] obtain x nd where
      f: "findNode_h N m (root_f obj) pt = Some (Some x)" and
      fo: "found_ok N (nodes m) (root_f obj) (kd_root K) pt x nd" by blast
    then show ?thesis
      by (auto simp: at_h_def tT at_kd_loc found_ok_def split: if_splits)
  qed
qed

lemma size_h_correct: "holds m T K \<Longrightarrow> size_h m T = Some (size_kd K)"
  by (auto simp: holds_def size_h_def size_kd_def split: option.splits)

lemma holds_frame:
  assumes ok: "heap_ok m" and hd: "holds m B KB"
    and tr: "trees m' B = trees m B"
    and fr: "\<forall>x \<in> footprint m B KB. nodes m' x = nodes m x"
  shows "holds m' B KB \<and> footprint m' B KB = footprint m B KB"
proof -
  from hd obtain obj where tB: "trees m B = Some obj"
    and r: "rep (nodes m) (root_f obj) (kd_root KB)" and sz: "size_f obj = kd_size KB"
    by (auto simp: holds_def split: option.splits)
  from fr have "\<forall>x \<in> addrs (nodes m) (root_f obj) (kd_root KB). nodes m' x = nodes m x"
    by (simp add: footprint_def tB)
  from rep_frame[of "nodes m" _ _ "nodes m'", OF r this] tr tB sz show ?thesis
    by (simp add: holds_def footprint_def)
qed

lemma footprint_below_next:
  "heap_ok m \<Longrightarrow> holds m B KB \<Longrightarrow> x \<in> footprint m B KB \<Longrightarrow> x < next_addr m"
  by (auto simp: holds_def footprint_def split: option.splits intro: addrs_below_next)

lemma separate_sym: "separate m A KA B KB \<Longrightarrow> separate m B KB A KA"
  by (auto simp: separate_def)

lemma separate_insert:
  assumes s: "separate m A KA B KB"
  shows "\<exists>m'. insert_h N m A pt val = Some m' \<and> separate m' A (insert_kd N KA pt val) B KB"
proof -
  from s have ok: "heap_ok m" and ne: "A \<noteq> B" and hA: "holds m A KA" and hB: "holds m B KB"
    and dj: "footprint m A KA \<inter> footprint m B KB = {}"
    by (simp_all add: separate_def)
  from insert_h_correct[OF ok hA, of N pt val] obtain m' where
    res: "insert_h N m A pt val = Some m'" and hA': "holds m' A (insert_kd N KA pt val)"
    and ok': "heap_ok m'"
    and fp: "footprint m' A (insert_kd N KA pt val) \<subseteq> insert (next_addr m) (footprint m A KA)"
    and old: "\<forall>x. x \<notin> footprint m A KA \<and> x < next_addr m \<longrightarrow> nodes m' x = nodes m x"
    and tr: "\<forall>B. B \<noteq> A \<longrightarrow> trees m' B = trees m B"
    by blast
  have bn: "\<forall>x \<in> footprint m B KB. x < next_addr m"
    using footprint_below_next[OF ok hB] by blast
  have fr: "\<forall>x \<in> footprint m B KB. nodes m' x = nodes m x"
    using old bn dj by auto
  from holds_frame[OF ok hB _ fr] tr ne have hB': "holds m' B KB"
    and fB: "footprint m' B KB = footprint m B KB" by auto
  have "footprint m' A (insert_kd N KA pt val) \<inter> footprint m' B KB = {}"
    using fp fB dj bn by fastforce
  with res ok' ne hA' hB' show ?thesis by (auto simp: separate_def)
qed

lemma separate_inserts:
  "separate m A KA B KB \<Longrightarrow>
   \<exists>m'. inserts_h N m A ops = Some m' \<and> separate m' A (inserts_kd N KA ops) B KB"
proof (induction ops arbitrary: m KA)
  case Nil
  then show ?case by simp
next
  case (Cons e es)
  from separate_insert[OF Cons.prems, of N "fst e" "snd e"] obtain m1 where
    i: "insert_h N m A (fst e) (snd e) = Some m1" and
    s: "separate m1 A (insert_kd N KA (fst e) (snd e)) B KB" by blast
  from Cons.IH[OF s] i show ?case by simp
qed

lemma KDTree_copy_separate:
  assumes ok: "heap_ok m" and hT: "holds m T K" and ne: "C \<noteq> T"
  shows "\<exists>m1. KDTree_copy m C T = Some m1 \<and> separate m1 C K T K"
proof -
  from hT obtain obj where tT: "trees m T = Some obj"
    and r: "rep (nodes m) (root_f obj) (kd_root K)" and sz: "size_f obj = kd_size K"
    by (auto simp: holds_def split: option.splits)
  from deepcopyTree_correct[OF ok r] obtain a' m' where
    dc: "deepcopyTree m (root_f obj) = Some (a', m')" and r': "rep (nodes m') a' (kd_root K)"
    and new: "\<forall>x \<in> addrs (nodes m') a' (kd_root K). next_addr m \<le> x \<and> x < next_addr m'"
    and old: "\<forall>x < next_addr m. nodes m' x = nodes m x" and ok': "heap_ok m'"
    and tr: "trees m' = trees m" and nx: "next_addr m \<le> next_addr m'"
    by blast
  define m1 where "m1 = m'\<lparr>trees := (trees m')(C \<mapsto> \<lparr>root_f = a', size_f = size_f obj\<rparr>)\<rparr>"
  have res: "KDTree_copy m C T = Some m1"
    by (simp add: KDTree_copy_def tT dc tr m1_def)
  have ok1: "heap_ok m1" using ok' by (simp add: heap_ok_def m1_def)
  have hC: "holds m1 C K" using r' sz by (simp add: holds_def m1_def)
  have fC: "footprint m1 C K = addrs (nodes m') a' (kd_root K)"
    by (simp add: footprint_def m1_def)
  have fr: "\<forall>x \<in> footprint m T K. nodes m1 x = nodes m x"
    using footprint_below_next[OF ok hT] old by (auto simp: m1_def)
  have "trees m1 T = trees m T" using ne tr by (simp add: m1_def)
  from holds_frame[OF ok hT this fr] have hT1: "holds m1 T K"
    and fT: "footprint m1 T K = footprint m T K" by simp_all
  have "footprint m1 C K \<inter> footprint m1 T K = {}"
    using new footprint_below_next[OF ok hT] unfolding fC fT by fastforce
  with res ok1 ne hC hT1 show ?thesis by (auto simp: separate_def)
qed

lemma KDTree_assign_separate:
  assumes s: "separate m C K0 T K"
  shows "\<exists>m1. KDTree_assign m C T = Some m1 \<and> separate m1 C K T K"
proof -
  from s have ok: "heap_ok m" and ne: "C \<noteq> T" and hC: "holds m C K0" and hT: "holds m T K"
    and dj: "footprint m C K0 \<inter> footprint m T K = {}"
    by (simp_all add: separate_def)
  from hC obtain objC where tC: "trees m C = Some objC"
    and rC: "rep (nodes m) (root_f objC) (kd_root K0)"
    by (auto simp: holds_def split: option.splits)
  from freeResource_correct[OF rC] obtain mf where
    fr: "freeResource m (root_f objC) = Some mf"
    and hf: "\<forall>x. nodes mf x = (if x \<in> addrs (nodes m) (root_f objC) (kd_root K0) then None else nodes m x)"
    and nf: "next_addr mf = next_addr m" and tf: "trees mf = trees m"
    by blast
  have okf: "heap_ok mf" using ok hf nf by (simp add: heap_ok_def)
  have "\<forall>x \<in> footprint m T K. nodes mf x = nodes m x"
    using hf dj by (auto simp: footprint_def tC)
  from holds_frame[OF ok hT _ this] tf have hTf: "holds mf T K" by simp
  from KDTree_copy_separate[OF okf hTf ne] obtain m1 where
    c: "KDTree_copy mf C T = Some m1" and s1: "separate m1 C K T K" by blast
  have "KDTree_assign m C T = Some m1"
    using ne c by (simp add: KDTree_assign_def KDTree_copy_def tC fr)
  with s1 show ?thesis by blast
qed

section \<open>Trees made by inserts alone\<close>

text \<open>
  What C3, C6 and C7 say does hold for the trees that inserts make of the empty tree:
  \<^verbatim>\<open>at\<close> returns the label of the last insert of an equal point, and \<^verbatim>\<open>contains\<close> and
  \<^verbatim>\<open>at\<close> find exactly the stored points (the axis invariant is lemma
  \<open>built_by_inserts_inv\<close>).
\<close>

lemma loc_inserts_kd:
  "loc N (kd_root (inserts_kd N K ops)) p =
     (case filter (\<lambda>e. point_eq N (fst e) p) (rev ops) of
        [] \<Rightarrow> loc N (kd_root K) p
      | e # es \<Rightarrow> Some (snd e))"
proof (induction ops arbitrary: K)
  case Nil
  then show ?case by simp
next
  case (Cons e es)
  show ?case
    using Cons.IH[of "insert_kd N K (fst e) (snd e)"]
    by (auto simp: kd_root_insert_kd loc_ins_same loc_ins_other split: list.splits)
qed

lemma at_after_inserts:
  "at_kd N (inserts_kd N KDTree_empty ops) p =
     (case filter (\<lambda>e. point_eq N (fst e) p) (rev ops) of
        [] \<Rightarrow> Inl out_of_range
      | e # es \<Rightarrow> Inr (snd e))"
  by (simp add: at_kd_loc loc_inserts_kd KDTree_empty_def split: list.splits)

lemma built_by_inserts_inserts_kd:
  "built_by_inserts N K \<Longrightarrow> built_by_inserts N (inserts_kd N K ops)"
  by (induction ops arbitrary: K) (auto intro: built_insert)

lemma contains_iff_stored_after_inserts:
  assumes "built_by_inserts N T"
  shows "contains N T p \<longleftrightarrow> stored N (kd_root T) p"
proof -
  from built_by_inserts_inv[OF assms] have inv: "kd_invariant N (kd_root T)" by simp
  show ?thesis
    using loc_None_not_stored[OF inv, of p] loc_Some_stored[of N "kd_root T" p]
    by (cases "loc N (kd_root T) p") (auto simp: contains_loc)
qed

lemma at_raises_iff_not_stored_after_inserts:
  assumes "built_by_inserts N T"
  shows "at_kd N T p = Inl out_of_range \<longleftrightarrow> \<not> stored N (kd_root T) p"
  using contains_iff_stored_after_inserts[OF assms, of p]
  by (auto simp: at_kd_loc contains_loc split: option.splits)

lemma at_raises_if_not_stored: "\<not> stored N (kd_root T) p \<Longrightarrow> at_kd N T p = Inl out_of_range"
  using loc_Some_stored[of N "kd_root T" p]
  by (cases "loc N (kd_root T) p") (auto simp: at_kd_loc)

lemma empty_tree_queries:
  "\<not> contains N KDTree_empty p \<and> kNNValue iter dflt N KDTree_empty q k = dflt \<and>
   at_kd N KDTree_empty p = Inl out_of_range"
  by (simp add: contains_def kNNValue_def at_kd_def KDTree_empty_def empty_kd_def)

section \<open>Copies are disjoint\<close>

text \<open>
  C9. Let the tree object \<open>T\<close> of a store hold the tree \<open>K\<close>, and let \<open>C\<close> be another tree
  object that is copy-constructed from \<open>T\<close>, or that holds a tree of its own (sharing no
  node with \<open>T\<close>) and is assigned \<open>T\<close>. The operation returns; afterwards \<open>C\<close> and \<open>T\<close>
  both hold \<open>K\<close> and share no node; any sequence of inserts (new points or label
  overwrites) into \<open>C\<close> returns and leaves \<open>T\<close> holding \<open>K\<close>, with the same \<^verbatim>\<open>size()\<close> and
  the same result of \<^verbatim>\<open>at(p)\<close> for every \<open>p\<close>; and the same with \<open>C\<close> and \<open>T\<close> exchanged.
\<close>

theorem copy_is_disjoint:
  assumes "heap_ok m" "holds m T K" "C \<noteq> T"
    and "copied = KDTree_copy m C T \<or>
         (\<exists>K0. holds m C K0 \<and> footprint m C K0 \<inter> footprint m T K = {} \<and>
               copied = KDTree_assign m C T)"
  shows "\<exists>m1. copied = Some m1 \<and> separate m1 C K T K \<and>
           (\<forall>ops. \<exists>m2. inserts_h N m1 C ops = Some m2 \<and>
               separate m2 C (inserts_kd N K ops) T K \<and>
               size_h m2 T = size_h m1 T \<and> (\<forall>p. at_h N m2 T p = at_h N m1 T p)) \<and>
           (\<forall>ops. \<exists>m2. inserts_h N m1 T ops = Some m2 \<and>
               separate m2 T (inserts_kd N K ops) C K \<and>
               size_h m2 C = size_h m1 C \<and> (\<forall>p. at_h N m2 C p = at_h N m1 C p))"
proof -
  have "\<exists>m1. copied = Some m1 \<and> separate m1 C K T K"
    using assms(4)
  proof
    assume "copied = KDTree_copy m C T"
    with KDTree_copy_separate[OF assms(1,2,3)] show ?thesis by simp
  next
    assume "\<exists>K0. holds m C K0 \<and> footprint m C K0 \<inter> footprint m T K = {} \<and>
               copied = KDTree_assign m C T"
    then obtain K0 where "separate m C K0 T K" and c: "copied = KDTree_assign m C T"
      using assms(1,2,3) by (auto simp: separate_def)
    from KDTree_assign_separate[OF this(1)] c show ?thesis by simp
  qed
  then obtain m1 where c: "copied = Some m1" and s: "separate m1 C K T K" by blast
  from s have hC: "holds m1 C K" and hT: "holds m1 T K"
    by (simp_all add: separate_def)
  have onC: "\<exists>m2. inserts_h N m1 C ops = Some m2 \<and>
               separate m2 C (inserts_kd N K ops) T K \<and>
               size_h m2 T = size_h m1 T \<and> (\<forall>p. at_h N m2 T p = at_h N m1 T p)" for ops
  proof -
    from separate_inserts[OF s, of N ops] obtain m2 where
      i: "inserts_h N m1 C ops = Some m2" and s2: "separate m2 C (inserts_kd N K ops) T K"
      by blast
    from s2 have "holds m2 T K" by (simp add: separate_def)
    with hT have "size_h m2 T = size_h m1 T" "\<forall>p. at_h N m2 T p = at_h N m1 T p"
      by (simp_all add: size_h_correct at_h_correct)
    with i s2 show ?thesis by blast
  qed
  have onT: "\<exists>m2. inserts_h N m1 T ops = Some m2 \<and>
               separate m2 T (inserts_kd N K ops) C K \<and>
               size_h m2 C = size_h m1 C \<and> (\<forall>p. at_h N m2 C p = at_h N m1 C p)" for ops
  proof -
    from separate_inserts[OF separate_sym[OF s], of N ops] obtain m2 where
      i: "inserts_h N m1 T ops = Some m2" and s2: "separate m2 T (inserts_kd N K ops) C K"
      by blast
    from s2 have "holds m2 C K" by (simp add: separate_def)
    with hC have "size_h m2 C = size_h m1 C" "\<forall>p. at_h N m2 C p = at_h N m1 C p"
      by (simp_all add: size_h_correct at_h_correct)
    with i s2 show ?thesis by blast
  qed
  from c s onC onT show ?thesis by blast
qed

text \<open>
  The theorem at a store with one tree of two nodes, \<open>(1,2) \<mapsto> a\<close> and \<open>(3,4) \<mapsto> b\<close>. The
  copy gets \<open>(3,4) \<mapsto> z\<close> (an overwrite) and \<open>(0,0) \<mapsto> y\<close> (a new node); the original still
  has \<open>(3,4) \<mapsto> b\<close>, no \<open>(0,0)\<close> and size 2. Then the original is assigned to the copy,
  which has \<open>(3,4) \<mapsto> b\<close>, no \<open>(0,0)\<close> and size 2 again.
\<close>

theorem copy_is_disjoint_witness:
  "heap_ok \<lparr>nodes = Map.empty(0 \<mapsto> \<lparr>point_f = [1, 2], left_f = None, right_f = Some 1,
                                     level_f = 0, value_f = ''a''\<rparr>,
                              1 \<mapsto> \<lparr>point_f = [3, 4], left_f = None, right_f = None,
                                     level_f = 1, value_f = ''b''\<rparr>),
            next_addr = 2, trees = Map.empty(0 \<mapsto> \<lparr>root_f = Some 0, size_f = 2\<rparr>)\<rparr> \<and>
   holds \<lparr>nodes = Map.empty(0 \<mapsto> \<lparr>point_f = [1, 2], left_f = None, right_f = Some 1,
                                   level_f = 0, value_f = ''a''\<rparr>,
                            1 \<mapsto> \<lparr>point_f = [3, 4], left_f = None, right_f = None,
                                   level_f = 1, value_f = ''b''\<rparr>),
          next_addr = 2, trees = Map.empty(0 \<mapsto> \<lparr>root_f = Some 0, size_f = 2\<rparr>)\<rparr> 0
     \<lparr>kd_root = Node [1, 2] Null (Node [3, 4] Null Null 1 ''b'') 0 ''a'', kd_size = 2\<rparr> \<and>
   (\<exists>m1 m2 m3.
      KDTree_copy \<lparr>nodes = Map.empty(0 \<mapsto> \<lparr>point_f = [1, 2], left_f = None, right_f = Some 1,
                                           level_f = 0, value_f = ''a''\<rparr>,
                                    1 \<mapsto> \<lparr>point_f = [3, 4], left_f = None, right_f = None,
                                           level_f = 1, value_f = ''b''\<rparr>),
                  next_addr = 2, trees = Map.empty(0 \<mapsto> \<lparr>root_f = Some 0, size_f = 2\<rparr>)\<rparr> 1 0
        = Some m1 \<and>
      inserts_h 2 m1 1 [([3, 4], ''z''), ([0, 0], ''y'')] = Some m2 \<and>
      at_h 2 m2 0 [3, 4] = Some (Inr ''b'') \<and> at_h 2 m2 0 [0, 0] = Some (Inl out_of_range) \<and>
      size_h m2 0 = Some 2 \<and>
      at_h 2 m2 1 [3, 4] = Some (Inr ''z'') \<and> at_h 2 m2 1 [0, 0] = Some (Inr ''y'') \<and>
      size_h m2 1 = Some 3 \<and>
      KDTree_assign m2 1 0 = Some m3 \<and>
      at_h 2 m3 1 [3, 4] = Some (Inr ''b'') \<and> at_h 2 m3 1 [0, 0] = Some (Inl out_of_range) \<and>
      size_h m3 1 = Some 2 \<and> at_h 2 m3 0 [3, 4] = Some (Inr ''b'') \<and> size_h m3 0 = Some 2)"
proof -
  define m0 :: "string mem" where
    "m0 = \<lparr>nodes = Map.empty(0 \<mapsto> \<lparr>point_f = [1, 2], left_f = None, right_f = Some 1,
                                     level_f = 0, value_f = ''a''\<rparr>,
                              1 \<mapsto> \<lparr>point_f = [3, 4], left_f = None, right_f = None,
                                     level_f = 1, value_f = ''b''\<rparr>),
            next_addr = 2, trees = Map.empty(0 \<mapsto> \<lparr>root_f = Some 0, size_f = 2\<rparr>)\<rparr>"
  define K0 :: "string KDTree" where
    "K0 = \<lparr>kd_root = Node [1, 2] Null (Node [3, 4] Null Null 1 ''b'') 0 ''a'', kd_size = 2\<rparr>"
  define ops :: "(point \<times> string) list" where "ops = [([3, 4], ''z''), ([0, 0], ''y'')]"
  have ok: "heap_ok m0" by (auto simp: heap_ok_def m0_def)
  have hd: "holds m0 0 K0" by (simp add: holds_def m0_def K0_def)
  from copy_is_disjoint[OF ok hd, of 1 "KDTree_copy m0 1 0" 2]
  obtain m1 where c: "KDTree_copy m0 1 0 = Some m1"
    and onC: "\<forall>ops. \<exists>m2. inserts_h 2 m1 1 ops = Some m2 \<and>
               separate m2 1 (inserts_kd 2 K0 ops) 0 K0 \<and>
               size_h m2 0 = size_h m1 0 \<and> (\<forall>p. at_h 2 m2 0 p = at_h 2 m1 0 p)"
    by auto
  from onC obtain m2 where i: "inserts_h 2 m1 1 ops = Some m2"
    and s2: "separate m2 1 (inserts_kd 2 K0 ops) 0 K0" by blast
  from s2 have h2: "holds m2 1 (inserts_kd 2 K0 ops)" "holds m2 0 K0" and ok2: "heap_ok m2"
    and dj2: "footprint m2 1 (inserts_kd 2 K0 ops) \<inter> footprint m2 0 K0 = {}"
    by (simp_all add: separate_def)
  have "KDTree_assign m2 1 0 = KDTree_copy m2 1 0 \<or>
        (\<exists>K1. holds m2 1 K1 \<and> footprint m2 1 K1 \<inter> footprint m2 0 K0 = {} \<and>
              KDTree_assign m2 1 0 = KDTree_assign m2 1 0)"
    using h2(1) dj2 by blast
  from copy_is_disjoint[OF ok2 h2(2) _ this, of 2]
  obtain m3 where a: "KDTree_assign m2 1 0 = Some m3" and s3: "separate m3 1 K0 0 K0"
    by auto
  from s3 have h3: "holds m3 1 K0" "holds m3 0 K0" by (simp_all add: separate_def)
  have a1: "at_kd 2 K0 [3, 4] = Inr ''b''" "at_kd 2 K0 [0, 0] = Inl out_of_range"
    "size_kd K0 = 2"
    unfolding K0_def by code_simp+
  have a2: "at_kd 2 (inserts_kd 2 K0 ops) [3, 4] = Inr ''z''"
    "at_kd 2 (inserts_kd 2 K0 ops) [0, 0] = Inr ''y''" "size_kd (inserts_kd 2 K0 ops) = 3"
    unfolding K0_def ops_def by code_simp+
  have "at_h 2 m2 0 [3, 4] = Some (Inr ''b'')" "at_h 2 m2 0 [0, 0] = Some (Inl out_of_range)"
    "size_h m2 0 = Some 2"
    "at_h 2 m2 1 [3, 4] = Some (Inr ''z'')" "at_h 2 m2 1 [0, 0] = Some (Inr ''y'')"
    "size_h m2 1 = Some 3"
    "at_h 2 m3 1 [3, 4] = Some (Inr ''b'')" "at_h 2 m3 1 [0, 0] = Some (Inl out_of_range)"
    "size_h m3 1 = Some 2" "at_h 2 m3 0 [3, 4] = Some (Inr ''b'')" "size_h m3 0 = Some 2"
    using h2 h3 a1 a2 by (simp_all add: at_h_correct size_h_correct)
  with ok hd c i a show ?thesis unfolding m0_def K0_def ops_def by blast
qed

end
